theory Spec2Isabelle
  imports Main "HOL-Library.Multiset"
begin

section \<open>The random source\<close>

text \<open>
  The generator script of \<^verbatim>\<open>src/app.ts\<close> (the worker script, lines 714--764) draws
  its randomness from \<^verbatim>\<open>Math.random()\<close>, and only inside \<^verbatim>\<open>shuffle\<close>, as
  \<^verbatim>\<open>Math.floor(Math.random() * (i + 1))\<close>: an integer \<open>j\<close> with \<open>0 \<le> j \<le> i\<close>.
  The source of randomness is an infinite tape of natural numbers, threaded through every
  function that draws; a draw for the bound \<open>n\<close> reads the head of the tape modulo \<open>n\<close>,
  so that every index below the bound can be drawn and no other. Every theorem below
  holds for every tape.
\<close>

type_synonym rng = "nat \<Rightarrow> nat"

definition random_below :: "nat \<Rightarrow> rng \<Rightarrow> nat \<times> rng" where
  "random_below n rng = (rng 0 mod n, \<lambda>k. rng (Suc k))"

section \<open>shuffle\<close>

text \<open>
  \<^verbatim>\<open>const shuffle = (array) => { for (let i = array.length - 1; i > 0; i--) {
    const j = Math.floor(Math.random() * (i + 1));
    [array[i], array[j]] = [array[j], array[i]]; } return array; };\<close>

  The destructuring assignment reads both entries first, then writes \<open>array[i]\<close> and
  then \<open>array[j]\<close>. The loop counts \<open>i\<close> down from \<open>length - 1\<close> to \<open>1\<close>; on the empty
  array \<open>length - 1\<close> is \<open>-1\<close> in the source and \<open>0\<close> here, and the loop does not run
  in either.
\<close>

definition swap :: "'a list \<Rightarrow> nat \<Rightarrow> nat \<Rightarrow> 'a list" where
  "swap array i j = (array[i := array ! j])[j := array ! i]"

fun shuffle_loop :: "nat \<Rightarrow> 'a list \<Rightarrow> rng \<Rightarrow> 'a list \<times> rng" where
  "shuffle_loop 0 array rng = (array, rng)"
| "shuffle_loop (Suc k) array rng =
     (case random_below (Suc k + 1) rng of
        (j, rng') \<Rightarrow> shuffle_loop k (swap array (Suc k) j) rng')"

definition shuffle :: "'a list \<Rightarrow> rng \<Rightarrow> 'a list \<times> rng" where
  "shuffle array rng = shuffle_loop (length array - 1) array rng"

section \<open>Boards\<close>

text \<open>
  A board is an array of row arrays of numbers; \<open>0\<close> is the empty cell.
  \<open>cell_is board r c v\<close> is the comparison \<^verbatim>\<open>board[r][c] === v\<close>: it is false for an
  entry the row does not have (JavaScript reads \<^verbatim>\<open>undefined\<close> there) and for a row the
  board does not have (where JavaScript raises a \<^verbatim>\<open>TypeError\<close>). On a board of nine rows
  of nine cells (\<open>board9\<close>), the only boards the script builds, every read and write of
  the script is in range, and neither case arises. \<open>set_cell board r c v\<close> is the
  assignment \<^verbatim>\<open>board[r][c] = v\<close>.
\<close>

type_synonym board = "nat list list"

definition cell_is :: "board \<Rightarrow> nat \<Rightarrow> nat \<Rightarrow> nat \<Rightarrow> bool" where
  "cell_is board r c v \<longleftrightarrow> r < length board \<and> c < length (board ! r) \<and> board ! r ! c = v"

definition set_cell :: "board \<Rightarrow> nat \<Rightarrow> nat \<Rightarrow> nat \<Rightarrow> board" where
  "set_cell board r c v = board[r := (board ! r)[c := v]]"

definition board9 :: "board \<Rightarrow> bool" where
  "board9 board \<longleftrightarrow> length board = 9 \<and> list_all (\<lambda>row. length row = 9) board"

text \<open>The 81 coordinates in row-major order, and the number of empty cells of a board.\<close>

definition cells9 :: "(nat \<times> nat) list" where
  "cells9 = List.product [0..<9] [0..<9]"

definition count_empty :: "board \<Rightarrow> nat" where
  "count_empty board = length (filter (\<lambda>(r, c). cell_is board r c 0) cells9)"

definition in_board :: "board \<Rightarrow> nat \<Rightarrow> nat \<Rightarrow> bool" where
  "in_board board r c \<longleftrightarrow> r < 9 \<and> c < 9 \<and> r < length board \<and> c < length (board ! r)"

section \<open>isValid\<close>

text \<open>
  \<^verbatim>\<open>const isValid = (board, row, col, num) => {
    for (let i = 0; i < 9; i++) {
      if (board[row][i] === num || board[i][col] === num) return false; }
    const startRow = Math.floor(row / 3) * 3, startCol = Math.floor(col / 3) * 3;
    for (let i = 0; i < 3; i++) for (let j = 0; j < 3; j++)
      if (board[startRow + i][startCol + j] === num) return false;
    return true; };\<close>
\<close>

definition isValid :: "board \<Rightarrow> nat \<Rightarrow> nat \<Rightarrow> nat \<Rightarrow> bool" where
  "isValid board row col num =
     (if list_ex (\<lambda>i. cell_is board row i num \<or> cell_is board i col num) [0..<9] then False
      else
        let startRow = (row div 3) * 3; startCol = (col div 3) * 3 in
        if list_ex (\<lambda>i. list_ex (\<lambda>j. cell_is board (startRow + i) (startCol + j) num) [0..<3])
             [0..<3]
        then False
        else True)"

section \<open>Lemmas for the termination proofs: shuffle\<close>

lemma mset_swap_list:
  assumes "i < length array" "j < length array"
  shows "mset (swap array i j) = mset array"
  unfolding swap_def using assms by (simp add: mset_swap)

lemma length_swap [simp]: "length (swap array i j) = length array"
  by (simp add: swap_def)

lemma random_below_less: "0 < n \<Longrightarrow> fst (random_below n rng) < n"
  by (simp add: random_below_def)

lemma shuffle_loop_mset:
  "k = 0 \<or> k < length array \<Longrightarrow> mset (fst (shuffle_loop k array rng)) = mset array"
proof (induction k arbitrary: array rng)
  case 0
  then show ?case by simp
next
  case (Suc k)
  obtain j rng' where d: "random_below (Suc k + 1) rng = (j, rng')"
    by (cases "random_below (Suc k + 1) rng")
  from Suc.prems have len: "Suc k < length array" by simp
  have "j < Suc k + 1"
    using random_below_less [of "Suc k + 1" rng] d by simp
  with len have j: "j < length array" by simp
  have "mset (fst (shuffle_loop k (swap array (Suc k) j) rng')) = mset (swap array (Suc k) j)"
    using len by (intro Suc.IH) simp
  with d len j show ?case by (simp add: mset_swap_list)
qed

lemma shuffle_mset: "mset (fst (shuffle array rng)) = mset array"
proof -
  have k: "length array - 1 = 0 \<or> length array - 1 < length array"
    by (cases array) simp_all
  show ?thesis
    unfolding shuffle_def by (rule shuffle_loop_mset [OF k])
qed

section \<open>Lemmas for the termination proofs: boards\<close>

lemma set_cells9: "set cells9 = {(r, c). r < 9 \<and> c < 9}"
  by (auto simp: cells9_def)

lemma length_set_cell [simp]: "length (set_cell board r c v) = length board"
  by (simp add: set_cell_def)

lemma nth_set_cell:
  "r' < length board \<Longrightarrow>
     set_cell board r c v ! r' = (if r' = r then (board ! r)[c := v] else board ! r')"
  by (simp add: set_cell_def nth_list_update)

lemma cell_is_set_cell:
  "cell_is (set_cell board r c v) r' c' w \<longleftrightarrow>
     (if r' = r \<and> c' = c \<and> r < length board \<and> c < length (board ! r) then v = w
      else cell_is board r' c' w)"
proof (cases "r' < length board")
  case True
  then show ?thesis
    by (cases "r' = r"; cases "c' = c") (auto simp: cell_is_def nth_set_cell nth_list_update)
next
  case False
  then show ?thesis by (simp add: cell_is_def)
qed

lemma set_cell_set_cell [simp]:
  "set_cell (set_cell board r c v) r c w = set_cell board r c w"
  by (cases "r < length board") (simp_all add: set_cell_def list_update_beyond not_less)

lemma set_cell_same: "cell_is board r c v \<Longrightarrow> set_cell board r c v = board"
  by (auto simp: cell_is_def set_cell_def list_update_same_conv)

lemma in_board_set_cell [simp]: "in_board (set_cell board r c v) r' c' = in_board board r' c'"
  by (cases "r' < length board") (auto simp: in_board_def nth_set_cell)

lemma length_filter_mono:
  "(\<And>x. x \<in> set xs \<Longrightarrow> P x \<Longrightarrow> Q x) \<Longrightarrow> length (filter P xs) \<le> length (filter Q xs)"
  by (induction xs) auto

lemma length_filter_strict:
  assumes "\<And>x. x \<in> set xs \<Longrightarrow> P x \<Longrightarrow> Q x" "y \<in> set xs" "Q y" "\<not> P y"
  shows "length (filter P xs) < length (filter Q xs)"
  using assms
proof (induction xs)
  case Nil
  then show ?case by simp
next
  case (Cons x xs)
  show ?case
  proof (cases "y \<in> set xs")
    case True
    with Cons have "length (filter P xs) < length (filter Q xs)" by auto
    with Cons.prems(1) [of x] show ?thesis by auto
  next
    case False
    with Cons.prems have "x = y" by auto
    moreover have "length (filter P xs) \<le> length (filter Q xs)"
      using Cons.prems(1) by (intro length_filter_mono) auto
    ultimately show ?thesis using Cons.prems by auto
  qed
qed

lemma count_empty_fill_le:
  "count_empty (set_cell board r c v) \<le> count_empty (set_cell board r c 0)"
  unfolding count_empty_def
  by (rule length_filter_mono) (auto simp: cell_is_set_cell split: if_splits)

lemma count_empty_fill_less:
  assumes "in_board board r c" "v \<noteq> 0"
  shows "count_empty (set_cell board r c v) < count_empty (set_cell board r c 0)"
  unfolding count_empty_def
proof (rule length_filter_strict [where y = "(r, c)"])
  show "(r, c) \<in> set cells9" using assms by (simp add: set_cells9 in_board_def)
  show "case (r, c) of (r', c') \<Rightarrow> cell_is (set_cell board r c 0) r' c' 0"
    using assms by (simp add: cell_is_set_cell in_board_def)
  show "\<not> (case (r, c) of (r', c') \<Rightarrow> cell_is (set_cell board r c v) r' c' 0)"
    using assms by (simp add: cell_is_set_cell in_board_def)
qed (auto simp: cell_is_set_cell split: if_splits)

section \<open>solve\<close>

text \<open>
  \<^verbatim>\<open>const solve = (board) => {
    for (let r = 0; r < 9; r++) for (let c = 0; c < 9; c++) if (board[r][c] === 0) {
      const nums = shuffle([1, 2, 3, 4, 5, 6, 7, 8, 9]);
      for (const num of nums) if (isValid(board, r, c, num)) {
        board[r][c] = num; if (solve(board)) return true; board[r][c] = 0; }
      return false; }
    return true; };\<close>

  \<open>first_empty\<close> is the scan for the first empty cell, \<open>solve_nums\<close> the loop over
  \<open>nums\<close>. The board is mutated in place: each function returns the board as it stands
  when the call returns, and the loop goes on with the board the recursive call left.
\<close>

definition first_empty :: "board \<Rightarrow> (nat \<times> nat) option" where
  "first_empty board = List.find (\<lambda>(r, c). cell_is board r c 0) cells9"

function solve :: "board \<Rightarrow> rng \<Rightarrow> bool \<times> board \<times> rng"
  and solve_nums :: "board \<Rightarrow> nat \<Rightarrow> nat \<Rightarrow> nat list \<Rightarrow> rng \<Rightarrow> bool \<times> board \<times> rng"
where
  "solve board rng =
     (case first_empty board of
        None \<Rightarrow> (True, board, rng)
      | Some (r, c) \<Rightarrow>
          (case shuffle [1, 2, 3, 4, 5, 6, 7, 8, 9] rng of
             (nums, rng1) \<Rightarrow> solve_nums board r c nums rng1))"
| "solve_nums board r c [] rng = (False, board, rng)"
| "solve_nums board r c (num # nums) rng =
     (if isValid board r c num then
        (case solve (set_cell board r c num) rng of
           (ok, board', rng') \<Rightarrow>
             if ok then (True, board', rng')
             else solve_nums (set_cell board' r c 0) r c nums rng')
      else solve_nums board r c nums rng)"
  by pat_completeness auto

lemma first_empty_Some:
  "first_empty board = Some (r, c) \<Longrightarrow> cell_is board r c 0 \<and> in_board board r c"
proof -
  assume "first_empty board = Some (r, c)"
  then have "(r, c) \<in> set cells9" "cell_is board r c 0"
    unfolding first_empty_def find_Some_iff by (auto simp: in_set_conv_nth)
  then show ?thesis by (auto simp: in_board_def set_cells9 cell_is_def)
qed

lemma shuffle_digits_set:
  "set (fst (shuffle [1, 2, 3, 4, 5, 6, 7, 8, 9] rng)) = {1, 2, 3, 4, 5, 6, 7, 8, 9 :: nat}"
proof -
  have "mset (fst (shuffle [1, 2, 3, 4, 5, 6, 7, 8, 9 :: nat] rng)) = mset [1, 2, 3, 4, 5, 6, 7, 8, 9]"
    by (rule shuffle_mset)
  then have "set (fst (shuffle [1, 2, 3, 4, 5, 6, 7, 8, 9 :: nat] rng)) = set [1, 2, 3, 4, 5, 6, 7, 8, 9]"
    by (rule mset_eq_setD)
  then show ?thesis by simp
qed

lemma solve_frame_dom:
  "solve_solve_nums_dom (Inl (board, rng)) \<Longrightarrow>
     \<not> fst (solve board rng) \<longrightarrow> fst (snd (solve board rng)) = board"
  "solve_solve_nums_dom (Inr (board, r, c, nums, rng)) \<Longrightarrow>
     \<not> fst (solve_nums board r c nums rng) \<longrightarrow>
       fst (snd (solve_nums board r c nums rng)) = board \<or>
       fst (snd (solve_nums board r c nums rng)) = set_cell board r c 0"
proof (induction rule: solve_solve_nums.pinduct)
  case (1 board rng)
  show ?case
  proof (cases "first_empty board")
    case None
    with 1(1) show ?thesis by (simp add: solve.psimps)
  next
    case (Some rc)
    obtain r c where rc: "rc = (r, c)" by (cases rc)
    obtain nums rng1 where sh: "shuffle [1, 2, 3, 4, 5, 6, 7, 8, 9 :: nat] rng = (nums, rng1)"
      by (cases "shuffle [1, 2, 3, 4, 5, 6, 7, 8, 9 :: nat] rng")
    have eq: "solve board rng = solve_nums board r c nums rng1"
      using 1(1) Some rc sh by (simp add: solve.psimps)
    have ih: "\<not> fst (solve_nums board r c nums rng1) \<longrightarrow>
       fst (snd (solve_nums board r c nums rng1)) = board \<or>
       fst (snd (solve_nums board r c nums rng1)) = set_cell board r c 0"
      by (rule 1(2) [OF Some _ sh [symmetric]]) (simp add: rc)
    from Some rc have "first_empty board = Some (r, c)" by simp
    then have "cell_is board r c 0" by (rule first_empty_Some [THEN conjunct1])
    then have "set_cell board r c 0 = board" by (rule set_cell_same)
    with ih show ?thesis unfolding eq by simp
  qed
next
  case (2 board r c rng)
  then show ?case by (simp add: solve_nums.psimps)
next
  case (3 board r c num nums rng)
  show ?case
  proof (cases "isValid board r c num")
    case False
    with 3(1) 3(4) show ?thesis by (simp add: solve_nums.psimps)
  next
    case True
    obtain ok board' rng' where s: "solve (set_cell board r c num) rng = (ok, board', rng')"
      by (cases "solve (set_cell board r c num) rng")
    show ?thesis
    proof (cases ok)
      case True
      with 3(1) \<open>isValid board r c num\<close> s show ?thesis by (simp add: solve_nums.psimps)
    next
      case False
      from 3(2) [OF \<open>isValid board r c num\<close>] have b: "board' = set_cell board r c num"
        unfolding s using False by simp
      have eq: "solve_nums board r c (num # nums) rng = solve_nums (set_cell board' r c 0) r c nums rng'"
        using 3(1) \<open>isValid board r c num\<close> s False by (simp add: solve_nums.psimps)
      have "\<not> fst (solve_nums (set_cell board' r c 0) r c nums rng') \<longrightarrow>
        fst (snd (solve_nums (set_cell board' r c 0) r c nums rng')) = set_cell board' r c 0 \<or>
        fst (snd (solve_nums (set_cell board' r c 0) r c nums rng')) = set_cell (set_cell board' r c 0) r c 0"
        by (rule 3(3) [OF \<open>isValid board r c num\<close>, of ok "(board', rng')" board' rng'])
          (simp_all add: s False)
      then show ?thesis unfolding eq b by simp
    qed
  qed
qed

definition solve_measure :: "board \<times> rng + board \<times> nat \<times> nat \<times> nat list \<times> rng \<Rightarrow> nat \<times> nat \<times> nat" where
  "solve_measure x =
     (case x of
        Inl (board, rng) \<Rightarrow> (count_empty board, 1, 0)
      | Inr (board, r, c, nums, rng) \<Rightarrow>
          (count_empty (set_cell board r c 0) + (if in_board board r c \<and> 0 \<notin> set nums then 0 else 1),
           0, length nums))"

termination solve
proof (relation "inv_image (less_than <*lex*> less_than <*lex*> less_than) solve_measure")
  show "wf (inv_image (less_than <*lex*> less_than <*lex*> less_than) solve_measure)"
    by (intro wf_inv_image wf_lex_prod wf_less_than)
next
  fix board :: board and rng ya :: rng and x2 :: "nat \<times> nat" and x y :: nat
    and xa :: "nat list"
  assume a: "first_empty board = Some x2" "(x, y) = x2"
    "(xa, ya) = shuffle [1, 2, 3, 4, 5, 6, 7, 8, 9] rng"
  from a(1) have "first_empty board = Some (x, y)" unfolding a(2) [symmetric] .
  from first_empty_Some [OF this] have fe: "cell_is board x y 0" "in_board board x y"
    by simp_all
  have "set (fst (shuffle [1, 2, 3, 4, 5, 6, 7, 8, 9] rng)) = {1, 2, 3, 4, 5, 6, 7, 8, 9 :: nat}"
    by (rule shuffle_digits_set)
  moreover from a(3) [symmetric] have "fst (shuffle [1, 2, 3, 4, 5, 6, 7, 8, 9] rng) = xa"
    by simp
  ultimately have "set xa = {1, 2, 3, 4, 5, 6, 7, 8, 9}" by simp
  then have "0 \<notin> set xa" by simp
  with fe show "(Inr (board, x, y, xa, ya), Inl (board, rng))
      \<in> inv_image (less_than <*lex*> less_than <*lex*> less_than) solve_measure"
    by (simp add: solve_measure_def set_cell_same)
next
  fix board :: board and r c num :: nat and nums :: "nat list" and rng :: rng
  assume "isValid board r c num"
  show "(Inl (set_cell board r c num, rng), Inr (board, r, c, num # nums, rng))
      \<in> inv_image (less_than <*lex*> less_than <*lex*> less_than) solve_measure"
    using count_empty_fill_le [of board r c num] count_empty_fill_less [of board r c num]
    by (auto simp: solve_measure_def)
next
  fix board xa :: board and r c num :: nat and nums :: "nat list" and rng ya :: rng
    and x :: bool and y :: "board \<times> rng"
  assume a: "isValid board r c num" "(x, y) = solve (set_cell board r c num) rng"
    "(xa, ya) = y" "\<not> x" "solve_solve_nums_dom (Inl (set_cell board r c num, rng))"
  from a(2) a(3) have "solve (set_cell board r c num) rng = (x, xa, ya)" by simp
  with solve_frame_dom(1) [OF a(5)] a(4) have "xa = set_cell board r c num"
    by simp
  then show "(Inr (set_cell xa r c 0, r, c, nums, ya), Inr (board, r, c, num # nums, rng))
      \<in> inv_image (less_than <*lex*> less_than <*lex*> less_than) solve_measure"
    by (auto simp: solve_measure_def)
next
  fix board :: board and r c num :: nat and nums :: "nat list" and rng :: rng
  assume "\<not> isValid board r c num"
  show "(Inr (board, r, c, nums, rng), Inr (board, r, c, num # nums, rng))
      \<in> inv_image (less_than <*lex*> less_than <*lex*> less_than) solve_measure"
    by (auto simp: solve_measure_def)
qed

section \<open>hasUniqueSolution\<close>

text \<open>
  \<^verbatim>\<open>const hasUniqueSolution = (board) => {
    let solutionCount = 0;
    const find = (b) => {
      let r = -1, c = -1;
      for (let i = 0; i < 81; i++) if (b[Math.floor(i/9)][i%9] === 0) {
        r = Math.floor(i/9); c = i%9; break; }
      if (r === -1) { solutionCount++; return; }
      for (let num = 1; num <= 9 && solutionCount <= 1; num++)
        if (isValid(b, r, c, num)) { b[r][c] = num; find(b); }
      b[r][c] = 0; };
    const boardCopy = JSON.parse(JSON.stringify(board));
    find(boardCopy);
    return solutionCount === 1; };\<close>

  \<open>find_rec\<close> is the closure \<open>find\<close>, with the captured counter \<open>solutionCount\<close>
  passed in and out; \<open>find_nums\<close> is its loop over \<open>num\<close>.
\<close>

definition first_empty_index :: "board \<Rightarrow> nat option" where
  "first_empty_index b = List.find (\<lambda>i. cell_is b (i div 9) (i mod 9) 0) [0..<81]"

function find_rec :: "board \<Rightarrow> nat \<Rightarrow> board \<times> nat"
  and find_nums :: "board \<Rightarrow> nat \<Rightarrow> nat \<Rightarrow> nat \<Rightarrow> nat \<Rightarrow> board \<times> nat"
where
  "find_rec b solutionCount =
     (case first_empty_index b of
        None \<Rightarrow> (b, solutionCount + 1)
      | Some i \<Rightarrow>
          (case find_nums b (i div 9) (i mod 9) 1 solutionCount of
             (b', solutionCount') \<Rightarrow> (set_cell b' (i div 9) (i mod 9) 0, solutionCount')))"
| "find_nums b r c num solutionCount =
     (if num \<le> 9 \<and> solutionCount \<le> 1 then
        (if isValid b r c num then
           (case find_rec (set_cell b r c num) solutionCount of
              (b', solutionCount') \<Rightarrow> find_nums b' r c (num + 1) solutionCount')
         else find_nums b r c (num + 1) solutionCount)
      else (b, solutionCount))"
  by pat_completeness auto

lemma first_empty_index_Some:
  assumes "first_empty_index b = Some i"
  shows "cell_is b (i div 9) (i mod 9) 0" "in_board b (i div 9) (i mod 9)"
proof -
  from assms have i: "i < 81" and z: "cell_is b (i div 9) (i mod 9) 0"
    unfolding first_empty_index_def find_Some_iff by auto
  from z show "cell_is b (i div 9) (i mod 9) 0" .
  from i have "i div 9 < 9" by simp
  with z show "in_board b (i div 9) (i mod 9)" by (simp add: in_board_def cell_is_def)
qed

lemma find_frame_dom:
  "find_rec_find_nums_dom (Inl (b, n)) \<Longrightarrow> fst (find_rec b n) = b"
  "find_rec_find_nums_dom (Inr (b, r, c, num, n)) \<Longrightarrow>
     set_cell (fst (find_nums b r c num n)) r c 0 = set_cell b r c 0"
proof (induction rule: find_rec_find_nums.pinduct)
  case (1 b n)
  show ?case
  proof (cases "first_empty_index b")
    case None
    with 1(1) show ?thesis by (simp add: find_rec.psimps)
  next
    case (Some i)
    obtain b' n' where f: "find_nums b (i div 9) (i mod 9) 1 n = (b', n')"
      by (cases "find_nums b (i div 9) (i mod 9) 1 n")
    have eq: "find_rec b n = (set_cell b' (i div 9) (i mod 9) 0, n')"
      using 1(1) Some f by (simp add: find_rec.psimps)
    have "set_cell (fst (find_nums b (i div 9) (i mod 9) 1 n)) (i div 9) (i mod 9) 0
        = set_cell b (i div 9) (i mod 9) 0"
      by (rule 1(2) [OF Some])
    then have "set_cell b' (i div 9) (i mod 9) 0 = set_cell b (i div 9) (i mod 9) 0"
      unfolding f by simp
    also have "\<dots> = b"
      by (rule set_cell_same) (rule first_empty_index_Some(1) [OF Some])
    finally show ?thesis unfolding eq by simp
  qed
next
  case (2 b r c num n)
  show ?case
  proof (cases "num \<le> 9 \<and> n \<le> 1")
    case False
    with 2(1) show ?thesis by (auto simp: find_nums.psimps)
  next
    case guard: True
    show ?thesis
    proof (cases "isValid b r c num")
      case False
      have eq: "find_nums b r c num n = find_nums b r c (num + 1) n"
        using 2(1) guard False by (simp add: find_nums.psimps)
      show ?thesis unfolding eq by (rule 2(4) [OF guard False])
    next
      case True
      obtain b' n' where f: "find_rec (set_cell b r c num) n = (b', n')"
        by (cases "find_rec (set_cell b r c num) n")
      have eq: "find_nums b r c num n = find_nums b' r c (num + 1) n'"
        using 2(1) guard True f by (simp add: find_nums.psimps)
      have "fst (find_rec (set_cell b r c num) n) = set_cell b r c num"
        by (rule 2(2) [OF guard True])
      then have b': "b' = set_cell b r c num" unfolding f by simp
      have "set_cell (fst (find_nums b' r c (num + 1) n')) r c 0 = set_cell b' r c 0"
        by (rule 2(3) [OF guard True f [symmetric]])
      then show ?thesis unfolding eq b' by simp
    qed
  qed
qed

definition find_measure :: "board \<times> nat + board \<times> nat \<times> nat \<times> nat \<times> nat \<Rightarrow> nat \<times> nat \<times> nat" where
  "find_measure x =
     (case x of
        Inl (b, n) \<Rightarrow> (count_empty b, 1, 0)
      | Inr (b, r, c, num, n) \<Rightarrow>
          (count_empty (set_cell b r c 0) + (if in_board b r c \<and> 0 < num then 0 else 1),
           0, 10 - num))"

termination find_rec
proof (relation "inv_image (less_than <*lex*> less_than <*lex*> less_than) find_measure")
  show "wf (inv_image (less_than <*lex*> less_than <*lex*> less_than) find_measure)"
    by (intro wf_inv_image wf_lex_prod wf_less_than)
next
  fix b :: board and solutionCount x2 :: nat
  assume a: "first_empty_index b = Some x2"
  note fe = first_empty_index_Some [OF a]
  then show "(Inr (b, x2 div 9, x2 mod 9, 1, solutionCount), Inl (b, solutionCount))
      \<in> inv_image (less_than <*lex*> less_than <*lex*> less_than) find_measure"
    by (simp add: find_measure_def set_cell_same)
next
  fix b :: board and r c num solutionCount :: nat
  assume "num \<le> 9 \<and> solutionCount \<le> 1" "isValid b r c num"
  show "(Inl (set_cell b r c num, solutionCount), Inr (b, r, c, num, solutionCount))
      \<in> inv_image (less_than <*lex*> less_than <*lex*> less_than) find_measure"
    using count_empty_fill_le [of b r c num] count_empty_fill_less [of b r c num]
    by (auto simp: find_measure_def)
next
  fix b x :: board and r c num solutionCount y :: nat
  assume a: "num \<le> 9 \<and> solutionCount \<le> 1" "isValid b r c num"
    "(x, y) = find_rec (set_cell b r c num) solutionCount"
    "find_rec_find_nums_dom (Inl (set_cell b r c num, solutionCount))"
  from find_frame_dom(1) [OF a(4)] a(3) [symmetric] have "x = set_cell b r c num"
    by simp
  with a(1) show "(Inr (x, r, c, num + 1, y), Inr (b, r, c, num, solutionCount))
      \<in> inv_image (less_than <*lex*> less_than <*lex*> less_than) find_measure"
    by (auto simp: find_measure_def)
next
  fix b :: board and r c num solutionCount :: nat
  assume "num \<le> 9 \<and> solutionCount \<le> 1" "\<not> isValid b r c num"
  then show "(Inr (b, r, c, num + 1, solutionCount), Inr (b, r, c, num, solutionCount))
      \<in> inv_image (less_than <*lex*> less_than <*lex*> less_than) find_measure"
    by (auto simp: find_measure_def)
qed

definition hasUniqueSolution :: "board \<Rightarrow> bool" where
  "hasUniqueSolution board =
     (let boardCopy = board in
      case find_rec boardCopy 0 of (b', solutionCount) \<Rightarrow> solutionCount = 1)"

section \<open>generatePuzzle\<close>

text \<open>
  \<^verbatim>\<open>const generatePuzzle = (diff) => {
    const grid = Array(9).fill().map(() => Array(9).fill(0));
    solve(grid);
    const solution = JSON.parse(JSON.stringify(grid));
    const difficultyMap = { easy: 38, medium: 46, hard: 53, expert: 59, master: 64 };
    let cellsToRemove = difficultyMap[diff] || 46;
    const cells = shuffle(Array.from({ length: 81 },
      (_, i) => ({ r: Math.floor(i / 9), c: i % 9 })));
    while (cells.length > 0 && cellsToRemove > 0) {
      const { r, c } = cells.pop();
      const temp = grid[r][c];
      grid[r][c] = 0;
      if (!hasUniqueSolution(grid)) grid[r][c] = temp;
      else cellsToRemove--; }
    return { puzzle: grid, solution }; };\<close>

  \<open>difficultyMap\<close> is an object literal, so \<^verbatim>\<open>difficultyMap[diff]\<close> finds the five own
  properties and, for any other key, what the object inherits from \<^verbatim>\<open>Object.prototype\<close>:
  a function for \<^verbatim>\<open>constructor\<close>, \<^verbatim>\<open>toString\<close> and the like, the prototype object for
  \<^verbatim>\<open>__proto__\<close>. Such a value is truthy, so \<^verbatim>\<open>||\<close> keeps it, and it converts to
  \<^verbatim>\<open>NaN\<close> in \<^verbatim>\<open>cellsToRemove > 0\<close>, which is then false. \<open>jsvalue\<close> holds what
  \<open>cellsToRemove\<close> can be: a number, or such an inherited member.

  The return value of \<open>solve\<close> is discarded. \<open>loop_entry\<close> is the state of the three
  variables the loop changes when the loop is reached, with the copy \<open>solution\<close>;
  \<open>loop_iterations\<close> counts the iterations of the same loop.
\<close>

datatype jsvalue = Number nat | Inherited

definition difficultyMap :: "(string \<times> nat) list" where
  "difficultyMap =
     [(''easy'', 38), (''medium'', 46), (''hard'', 53), (''expert'', 59), (''master'', 64)]"

definition object_prototype_members :: "string list" where
  "object_prototype_members =
     [''constructor'', ''hasOwnProperty'', ''isPrototypeOf'', ''propertyIsEnumerable'',
      ''toLocaleString'', ''toString'', ''valueOf'', ''__proto__'',
      ''__defineGetter__'', ''__defineSetter__'', ''__lookupGetter__'', ''__lookupSetter__'']"

definition lookup_difficulty :: "string \<Rightarrow> jsvalue option" where
  "lookup_difficulty diff =
     (case map_of difficultyMap diff of
        Some n \<Rightarrow> Some (Number n)
      | None \<Rightarrow> if diff \<in> set object_prototype_members then Some Inherited else None)"

definition truthy :: "jsvalue \<Rightarrow> bool" where
  "truthy v = (case v of Number n \<Rightarrow> n \<noteq> 0 | Inherited \<Rightarrow> True)"

definition initial_cellsToRemove :: "string \<Rightarrow> jsvalue" where
  "initial_cellsToRemove diff =
     (case lookup_difficulty diff of
        Some v \<Rightarrow> if truthy v then v else Number 46
      | None \<Rightarrow> Number 46)"

definition positive :: "jsvalue \<Rightarrow> bool" where
  "positive v = (case v of Number n \<Rightarrow> 0 < n | Inherited \<Rightarrow> False)"

definition decrement :: "jsvalue \<Rightarrow> jsvalue" where
  "decrement v = (case v of Number n \<Rightarrow> Number (n - 1) | Inherited \<Rightarrow> Inherited)"

record loop_state =
  grid :: board
  cells :: "(nat \<times> nat) list"
  cellsToRemove :: jsvalue

definition loop_cond :: "loop_state \<Rightarrow> bool" where
  "loop_cond st \<longleftrightarrow> length (cells st) > 0 \<and> positive (cellsToRemove st)"

definition loop_body :: "loop_state \<Rightarrow> loop_state" where
  "loop_body st =
     (case last (cells st) of
        (r, c) \<Rightarrow>
          let cells' = butlast (cells st);
              temp = grid st ! r ! c;
              grid1 = set_cell (grid st) r c 0
          in if \<not> hasUniqueSolution grid1
             then st\<lparr>grid := set_cell grid1 r c temp, cells := cells'\<rparr>
             else st\<lparr>grid := grid1, cells := cells',
                     cellsToRemove := decrement (cellsToRemove st)\<rparr>)"

lemma cells_loop_body [simp]: "cells (loop_body st) = butlast (cells st)"
  by (simp add: loop_body_def Let_def case_prod_unfold)

function removal_loop :: "loop_state \<Rightarrow> loop_state" where
  "removal_loop st = (if loop_cond st then removal_loop (loop_body st) else st)"
  by pat_completeness auto

termination
  by (relation "measure (\<lambda>st. length (cells st))") (simp_all add: loop_cond_def)

function loop_iterations :: "loop_state \<Rightarrow> nat" where
  "loop_iterations st = (if loop_cond st then Suc (loop_iterations (loop_body st)) else 0)"
  by pat_completeness auto

termination
  by (relation "measure (\<lambda>st. length (cells st))") (simp_all add: loop_cond_def)

declare removal_loop.simps [simp del] loop_iterations.simps [simp del]

lemma removal_loop_step: "loop_cond st \<Longrightarrow> removal_loop st = removal_loop (loop_body st)"
  by (subst removal_loop.simps) simp

lemma removal_loop_done: "\<not> loop_cond st \<Longrightarrow> removal_loop st = st"
  by (subst removal_loop.simps) simp

lemma loop_iterations_step:
  "loop_cond st \<Longrightarrow> loop_iterations st = Suc (loop_iterations (loop_body st))"
  by (subst loop_iterations.simps) simp

lemma loop_iterations_done: "\<not> loop_cond st \<Longrightarrow> loop_iterations st = 0"
  by (subst loop_iterations.simps) simp

definition emptyBoard :: board where
  "emptyBoard = replicate 9 (replicate 9 0)"

definition all_cells :: "(nat \<times> nat) list" where
  "all_cells = map (\<lambda>i. (i div 9, i mod 9)) [0..<81]"

definition loop_entry :: "string \<Rightarrow> rng \<Rightarrow> loop_state \<times> board" where
  "loop_entry diff rng =
     (case solve emptyBoard rng of
        (ok, grid0, rng1) \<Rightarrow>
          let solution = grid0;
              cellsToRemove0 = initial_cellsToRemove diff
          in case shuffle all_cells rng1 of
               (cells0, rng2) \<Rightarrow>
                 (\<lparr>grid = grid0, cells = cells0, cellsToRemove = cellsToRemove0\<rparr>, solution))"

definition generatePuzzle :: "string \<Rightarrow> rng \<Rightarrow> board \<times> board" where
  "generatePuzzle diff rng =
     (case loop_entry diff rng of (st, solution) \<Rightarrow> (grid (removal_loop st), solution))"

section \<open>hasUniqueSolution on a heap\<close>

text \<open>
  The functions above pass boards by value. What \<open>hasUniqueSolution\<close> does to the array
  its caller holds depends on which array objects \<open>find\<close> writes into, so here the arrays
  are objects of a heap: a heap is a list of objects, an address is an index into it, and
  allocation appends. A board is an array of references to row arrays.
  \<open>board_of h a\<close> reads the board at address \<open>a\<close>; \<open>h_set_cell h a r c v\<close> is the
  assignment \<^verbatim>\<open>b[r][c] = v\<close> through the reference \<open>a\<close>: it changes the row object
  at the address \<open>b[r]\<close>, and so every board that shares this row. \<open>json_copy\<close> is \<^verbatim>\<open>JSON.parse(JSON.stringify(board))\<close>: new row arrays and a
  new outer array with the same numbers. \<open>find_h\<close> is \<open>find\<close> on the heap; its recursion
  is bounded by fuel, and \<open>None\<close> is running out of it.
\<close>

datatype obj = NumArray "nat list" | RefArray "nat list"

type_synonym heap = "obj list"

definition h_rows :: "heap \<Rightarrow> nat \<Rightarrow> nat list" where
  "h_rows h a =
     (if a < length h then (case h ! a of RefArray rs \<Rightarrow> rs | NumArray xs \<Rightarrow> []) else [])"

definition h_row :: "heap \<Rightarrow> nat \<Rightarrow> nat list" where
  "h_row h ra =
     (if ra < length h then (case h ! ra of NumArray xs \<Rightarrow> xs | RefArray rs \<Rightarrow> []) else [])"

definition board_of :: "heap \<Rightarrow> nat \<Rightarrow> board" where
  "board_of h a = map (h_row h) (h_rows h a)"

definition h_set_cell :: "heap \<Rightarrow> nat \<Rightarrow> nat \<Rightarrow> nat \<Rightarrow> nat \<Rightarrow> heap" where
  "h_set_cell h a r c v =
     (if r < length (h_rows h a)
      then let ra = h_rows h a ! r in h[ra := NumArray ((h_row h ra)[c := v])]
      else h)"

fun find_h :: "nat \<Rightarrow> heap \<Rightarrow> nat \<Rightarrow> nat \<Rightarrow> (heap \<times> nat) option"
  and find_nums_h :: "nat \<Rightarrow> heap \<Rightarrow> nat \<Rightarrow> nat \<Rightarrow> nat \<Rightarrow> nat \<Rightarrow> nat \<Rightarrow> (heap \<times> nat) option"
where
  "find_h 0 h b solutionCount = None"
| "find_h (Suc fuel) h b solutionCount =
     (case first_empty_index (board_of h b) of
        None \<Rightarrow> Some (h, solutionCount + 1)
      | Some i \<Rightarrow>
          (case find_nums_h fuel h b (i div 9) (i mod 9) 1 solutionCount of
             None \<Rightarrow> None
           | Some (h', solutionCount') \<Rightarrow>
               Some (h_set_cell h' b (i div 9) (i mod 9) 0, solutionCount')))"
| "find_nums_h 0 h b r c num solutionCount = None"
| "find_nums_h (Suc fuel) h b r c num solutionCount =
     (if num \<le> 9 \<and> solutionCount \<le> 1 then
        (if isValid (board_of h b) r c num then
           (case find_h fuel (h_set_cell h b r c num) b solutionCount of
              None \<Rightarrow> None
            | Some (h', solutionCount') \<Rightarrow> find_nums_h fuel h' b r c (num + 1) solutionCount')
         else find_nums_h fuel h b r c (num + 1) solutionCount)
      else Some (h, solutionCount))"

definition json_copy :: "heap \<Rightarrow> nat \<Rightarrow> heap \<times> nat" where
  "json_copy h a =
     (let rows = board_of h a; n = length h
      in (h @ map NumArray rows @ [RefArray [n..<n + length rows]], n + length rows))"

definition hasUniqueSolution_h :: "nat \<Rightarrow> heap \<Rightarrow> nat \<Rightarrow> (heap \<times> bool) option" where
  "hasUniqueSolution_h fuel h board =
     (case json_copy h board of
        (h1, boardCopy) \<Rightarrow>
          (case find_h fuel h1 boardCopy 0 of
             None \<Rightarrow> None
           | Some (h2, solutionCount) \<Rightarrow> Some (h2, solutionCount = 1)))"

section \<open>The specification's words\<close>

text \<open>
  The units of the grid (rows, columns and 3x3 boxes as lists of coordinates), a valid
  complete grid (\<open>sudoku\<close>: nine rows of nine cells, and every unit holds each digit
  1--9 exactly once), a puzzle as a sub-assignment of a grid, and a completion of a puzzle.
  \<open>appears_elsewhere\<close> is the scan the specification describes for \<open>isValid\<close>, with the
  tested cell left out; \<open>appears_in_units\<close> is the same scan with it.
\<close>

definition same_unit :: "nat \<Rightarrow> nat \<Rightarrow> nat \<Rightarrow> nat \<Rightarrow> bool" where
  "same_unit row col r c \<longleftrightarrow> r = row \<or> c = col \<or> (r div 3 = row div 3 \<and> c div 3 = col div 3)"

definition appears_in_units :: "board \<Rightarrow> nat \<Rightarrow> nat \<Rightarrow> nat \<Rightarrow> bool" where
  "appears_in_units board row col num =
     list_ex (\<lambda>(r, c). same_unit row col r c \<and> cell_is board r c num) cells9"

definition appears_elsewhere :: "board \<Rightarrow> nat \<Rightarrow> nat \<Rightarrow> nat \<Rightarrow> bool" where
  "appears_elsewhere board row col num =
     list_ex (\<lambda>(r, c). (r, c) \<noteq> (row, col) \<and> same_unit row col r c \<and> cell_is board r c num) cells9"

definition row_coords :: "nat \<Rightarrow> (nat \<times> nat) list" where
  "row_coords k = map (\<lambda>c. (k, c)) [0..<9]"

definition col_coords :: "nat \<Rightarrow> (nat \<times> nat) list" where
  "col_coords k = map (\<lambda>r. (r, k)) [0..<9]"

definition box_coords :: "nat \<Rightarrow> (nat \<times> nat) list" where
  "box_coords k =
     map (\<lambda>(i, j). ((k div 3) * 3 + i, (k mod 3) * 3 + j)) (List.product [0..<3] [0..<3])"

definition all_units :: "(nat \<times> nat) list list" where
  "all_units = map row_coords [0..<9] @ map col_coords [0..<9] @ map box_coords [0..<9]"

definition cell_at :: "board \<Rightarrow> nat \<times> nat \<Rightarrow> nat" where
  "cell_at board p = board ! fst p ! snd p"

definition unit_values :: "board \<Rightarrow> (nat \<times> nat) list \<Rightarrow> nat list" where
  "unit_values board u = map (cell_at board) u"

definition each_digit_once :: "nat list \<Rightarrow> bool" where
  "each_digit_once xs = list_all (\<lambda>d. count_list xs d = 1) [1..<10]"

definition sudoku :: "board \<Rightarrow> bool" where
  "sudoku board \<longleftrightarrow>
     board9 board \<and> list_all (\<lambda>u. each_digit_once (unit_values board u)) all_units"

definition sub_assignment :: "board \<Rightarrow> board \<Rightarrow> bool" where
  "sub_assignment puzzle solution =
     list_all (\<lambda>p. cell_at puzzle p = 0 \<or> cell_at puzzle p = cell_at solution p) cells9"

definition completion :: "board \<Rightarrow> board \<Rightarrow> bool" where
  "completion puzzle s \<longleftrightarrow> sudoku s \<and> sub_assignment puzzle s"

definition board_at :: "heap \<Rightarrow> nat \<Rightarrow> bool" where
  "board_at h a \<longleftrightarrow> a < length h \<and> list_all (\<lambda>ra. ra < length h) (h_rows h a)"

section \<open>Example boards\<close>

definition example_solution :: board where
  "example_solution =
     [[1, 2, 3, 4, 5, 6, 7, 8, 9],
      [4, 5, 6, 7, 8, 9, 1, 2, 3],
      [7, 8, 9, 1, 2, 3, 4, 5, 6],
      [2, 3, 4, 5, 6, 7, 8, 9, 1],
      [5, 6, 7, 8, 9, 1, 2, 3, 4],
      [8, 9, 1, 2, 3, 4, 5, 6, 7],
      [3, 4, 5, 6, 7, 8, 9, 1, 2],
      [6, 7, 8, 9, 1, 2, 3, 4, 5],
      [9, 1, 2, 3, 4, 5, 6, 7, 8]]"

text \<open>
  A board without a completion: cell (0, 0) can only hold 2, and then cell (0, 1) can hold
  nothing. \<open>solve\<close> places the 2, fails at (0, 1), and takes the 2 back.
\<close>

definition failing_board :: board where
  "failing_board =
     [[0, 0, 3, 4, 5, 6, 7, 8, 9],
      [0, 0, 0, 0, 0, 0, 0, 0, 0],
      [0, 0, 0, 0, 0, 0, 0, 0, 0],
      [1, 0, 0, 0, 0, 0, 0, 0, 0],
      [0, 0, 0, 0, 0, 0, 0, 0, 0],
      [0, 0, 0, 0, 0, 0, 0, 0, 0],
      [0, 1, 0, 0, 0, 0, 0, 0, 0],
      [0, 0, 0, 0, 0, 0, 0, 0, 0],
      [0, 0, 0, 0, 0, 0, 0, 0, 0]]"

definition example_heap :: heap where
  "example_heap = map NumArray (set_cell example_solution 0 0 0) @ [RefArray [0..<9]]"

section \<open>Invariants and sets used in the proofs\<close>

definition consistent :: "board \<Rightarrow> bool" where
  "consistent g \<longleftrightarrow>
     board9 g \<and> (\<forall>p\<in>set cells9. cell_at g p \<le> 9) \<and>
     (\<forall>u\<in>set all_units. \<forall>p\<in>set u. \<forall>q\<in>set u.
        p \<noteq> q \<and> cell_at g p \<noteq> 0 \<longrightarrow> cell_at g p \<noteq> cell_at g q)"

definition completions :: "board \<Rightarrow> board set" where
  "completions g = {s. completion g s}"

definition completions_from :: "board \<Rightarrow> nat \<times> nat \<Rightarrow> nat \<Rightarrow> board set" where
  "completions_from g p k = {s \<in> completions g. k \<le> cell_at s p}"

definition gen_inv :: "board \<Rightarrow> loop_state \<Rightarrow> bool" where
  "gen_inv sol st \<longleftrightarrow>
     board9 (grid st) \<and> sub_assignment (grid st) sol \<and> hasUniqueSolution (grid st) \<and>
     set (cells st) \<subseteq> set cells9"

definition within_target :: "nat \<Rightarrow> loop_state \<Rightarrow> bool" where
  "within_target K st \<longleftrightarrow>
     (\<exists>k. cellsToRemove st = Number k \<and> count_empty (grid st) + k \<le> K)"

definition own_rows :: "heap \<Rightarrow> nat \<Rightarrow> bool" where
  "own_rows h a \<longleftrightarrow>
     a < length h \<and> distinct (h_rows h a) \<and> a \<notin> set (h_rows h a) \<and>
     list_all (\<lambda>ra. ra < length h \<and> h ! ra = NumArray (h_row h ra)) (h_rows h a)"

definition heap_step :: "heap \<Rightarrow> heap \<Rightarrow> nat \<Rightarrow> bool" where
  "heap_step h h' b \<longleftrightarrow>
     own_rows h' b \<and> h_rows h' b = h_rows h b \<and> length h' = length h \<and>
     (\<forall>x. x \<notin> set (h_rows h b) \<longrightarrow> h' ! x = h ! x)"

section \<open>Lemmas\<close>

subsection \<open>isValid is the scan of the three units\<close>

lemma list_ex_cells9:
  "list_ex P cells9 \<longleftrightarrow> (\<exists>r<9. \<exists>c<9. P (r, c))"
  unfolding cells9_def list_ex_iff by (simp add: Bex_def)

lemma list_ex_upt: "list_ex P [0..<n] \<longleftrightarrow> (\<exists>i<n. P i)"
  unfolding list_ex_iff by auto

lemma div3_less: "c < 9 \<Longrightarrow> c div 3 < (3::nat)"
  by (simp add: less_mult_imp_div_less)

lemma box_index:
  "r div 3 = row div 3 \<longleftrightarrow> (\<exists>i<3. r = (row div 3) * 3 + i)" for r :: nat
proof
  assume "r div 3 = row div 3"
  then have "r = (row div 3) * 3 + r mod 3" by (metis div_mult_mod_eq)
  moreover have "r mod 3 < 3" by simp
  ultimately show "\<exists>i<3. r = (row div 3) * 3 + i" by blast
next
  assume "\<exists>i<3. r = (row div 3) * 3 + i"
  then show "r div 3 = row div 3" by auto
qed

lemma isValid_iff:
  assumes "row < 9" "col < 9"
  shows "isValid board row col num \<longleftrightarrow> \<not> appears_in_units board row col num"
proof -
  have box: "(\<exists>i<3. \<exists>j<3. cell_is board ((row div 3) * 3 + i) ((col div 3) * 3 + j) num)
    \<longleftrightarrow> (\<exists>r<9. \<exists>c<9. r div 3 = row div 3 \<and> c div 3 = col div 3 \<and> cell_is board r c num)"
    (is "?L \<longleftrightarrow> ?R")
  proof
    assume ?L
    then obtain i j where ij: "i < 3" "j < 3"
      "cell_is board ((row div 3) * 3 + i) ((col div 3) * 3 + j) num" by blast
    let ?r = "(row div 3) * 3 + i" and ?c = "(col div 3) * 3 + j"
    from div3_less [OF assms(1)] div3_less [OF assms(2)] ij have "?r < 9" "?c < 9"
      by linarith+
    moreover from ij have "?r div 3 = row div 3" "?c div 3 = col div 3" by auto
    ultimately show ?R using ij(3) by blast
  next
    assume ?R
    then obtain r c where rc: "r div 3 = row div 3" "c div 3 = col div 3" "cell_is board r c num"
      by blast
    from rc(1) obtain i where i: "i < 3" "r = (row div 3) * 3 + i" using box_index by blast
    from rc(2) obtain j where j: "j < 3" "c = (col div 3) * 3 + j" using box_index by blast
    from i j rc(3) show ?L by blast
  qed
  have "isValid board row col num \<longleftrightarrow>
      \<not> ((\<exists>i<9. cell_is board row i num \<or> cell_is board i col num) \<or>
         (\<exists>i<3. \<exists>j<3. cell_is board ((row div 3) * 3 + i) ((col div 3) * 3 + j) num))"
    by (simp add: isValid_def list_ex_upt Let_def)
  also have "\<dots> \<longleftrightarrow> \<not> (\<exists>r<9. \<exists>c<9. same_unit row col r c \<and> cell_is board r c num)"
    unfolding box same_unit_def using assms by blast
  finally show ?thesis
    by (simp add: appears_in_units_def list_ex_cells9)
qed

lemma appears_split:
  assumes "row < 9" "col < 9"
  shows "appears_in_units board row col num \<longleftrightarrow>
     cell_is board row col num \<or> appears_elsewhere board row col num"
proof -
  have "same_unit row col row col" by (simp add: same_unit_def)
  with assms show ?thesis
    unfolding appears_in_units_def appears_elsewhere_def list_ex_cells9 by auto
qed

text \<open>
  The scan of \<open>isValid\<close> passes over the tested cell as well, so its result is the
  conjunction of two facts: the tested cell does not hold the digit, and no other cell of
  the three units does.
\<close>

lemma isValid_tested_cell:
  assumes "board9 board" "row < 9" "col < 9"
  shows "isValid board row col num \<longleftrightarrow>
     board ! row ! col \<noteq> num \<and> \<not> appears_elsewhere board row col num"
proof -
  from assms have "cell_is board row col num \<longleftrightarrow> board ! row ! col = num"
    by (auto simp: cell_is_def board9_def list_all_length)
  with assms show ?thesis
    by (simp add: isValid_iff appears_split)
qed

subsection \<open>Units, valid grids and consistent partial grids\<close>

lemma set_row_coords: "set (row_coords k) = {(r, c). r = k \<and> c < 9}"
  by (auto simp: row_coords_def)

lemma set_col_coords: "set (col_coords k) = {(r, c). c = k \<and> r < 9}"
  by (auto simp: col_coords_def)

lemma set_box_coords:
  "set (box_coords k) = {(r, c). r div 3 = k div 3 \<and> c div 3 = k mod 3}"
proof -
  have "\<And>r c. (r, c) \<in> set (box_coords k) \<longleftrightarrow> r div 3 = k div 3 \<and> c div 3 = k mod 3"
  proof -
    fix r c :: nat
    have "(r, c) \<in> set (box_coords k) \<longleftrightarrow>
        (\<exists>i<3. \<exists>j<3. r = (k div 3) * 3 + i \<and> c = (k mod 3) * 3 + j)"
      by (auto simp: box_coords_def)
    also have "\<dots> \<longleftrightarrow> (\<exists>i<3. r = (k div 3) * 3 + i) \<and> (\<exists>j<3. c = (k mod 3) * 3 + j)"
      by blast
    also have "\<dots> \<longleftrightarrow> r div 3 = k div 3 \<and> c div 3 = k mod 3"
      using box_index [of r "(k div 3) * 3"] box_index [of c "(k mod 3) * 3"] by simp
    finally show "(r, c) \<in> set (box_coords k) \<longleftrightarrow> r div 3 = k div 3 \<and> c div 3 = k mod 3" .
  qed
  then show ?thesis by auto
qed

lemma set_all_units:
  "set all_units = row_coords ` {..<9} \<union> col_coords ` {..<9} \<union> box_coords ` {..<9}"
  by (auto simp: all_units_def)

lemma unit_props:
  assumes "u \<in> set all_units"
  shows "distinct u" "length u = 9" "set u \<subseteq> set cells9"
proof -
  from assms consider k where "k < 9" "u = row_coords k" | k where "k < 9" "u = col_coords k"
    | k where "k < 9" "u = box_coords k"
    by (auto simp: set_all_units)
  then have "distinct u \<and> length u = 9 \<and> set u \<subseteq> set cells9"
  proof cases
    case 1
    then show ?thesis
      by (auto simp: row_coords_def distinct_map inj_on_def set_cells9)
  next
    case 2
    then show ?thesis
      by (auto simp: col_coords_def distinct_map inj_on_def set_cells9)
  next
    case 3
    have "distinct (box_coords k)"
      by (auto simp: box_coords_def distinct_map distinct_product inj_on_def)
    moreover have "length (box_coords k) = 9" by (simp add: box_coords_def)
    moreover have "set (box_coords k) \<subseteq> set cells9"
    proof
      fix p assume "p \<in> set (box_coords k)"
      then obtain i j where "i < 3" "j < 3" "p = ((k div 3) * 3 + i, (k mod 3) * 3 + j)"
        by (auto simp: box_coords_def)
      moreover from div3_less [OF 3(1)] have "(k div 3) * 3 < 7" by linarith
      moreover have "k mod 3 < 3" by simp
      then have "(k mod 3) * 3 < 7" by linarith
      ultimately show "p \<in> set cells9" by (simp add: set_cells9)
    qed
    ultimately show ?thesis using 3 by simp
  qed
  then show "distinct u" "length u = 9" "set u \<subseteq> set cells9" by simp_all
qed

lemma same_unit_iff:
  assumes "r < 9" "c < 9" "r' < 9" "c' < 9"
  shows "same_unit r c r' c' \<longleftrightarrow> (\<exists>u\<in>set all_units. (r, c) \<in> set u \<and> (r', c') \<in> set u)"
proof
  assume "same_unit r c r' c'"
  then consider "r' = r" | "c' = c" | "r' div 3 = r div 3 \<and> c' div 3 = c div 3"
    by (auto simp: same_unit_def)
  then show "\<exists>u\<in>set all_units. (r, c) \<in> set u \<and> (r', c') \<in> set u"
  proof cases
    case 1
    have "row_coords r \<in> set all_units" using assms by (simp add: set_all_units)
    moreover have "(r, c) \<in> set (row_coords r)" "(r', c') \<in> set (row_coords r)"
      using assms 1 by (simp_all add: set_row_coords)
    ultimately show ?thesis by blast
  next
    case 2
    have "col_coords c \<in> set all_units" using assms by (simp add: set_all_units)
    moreover have "(r, c) \<in> set (col_coords c)" "(r', c') \<in> set (col_coords c)"
      using assms 2 by (simp_all add: set_col_coords)
    ultimately show ?thesis by blast
  next
    case 3
    let ?k = "(r div 3) * 3 + c div 3"
    from div3_less [OF assms(1)] div3_less [OF assms(2)] have k: "?k < 9" by linarith
    from div3_less [OF assms(2)] have kd: "?k div 3 = r div 3" "?k mod 3 = c div 3"
      by simp_all
    have "box_coords ?k \<in> set all_units" using k by (simp add: set_all_units)
    moreover have "(r, c) \<in> set (box_coords ?k)" "(r', c') \<in> set (box_coords ?k)"
      using 3 kd by (simp_all add: set_box_coords)
    ultimately show ?thesis by blast
  qed
next
  assume "\<exists>u\<in>set all_units. (r, c) \<in> set u \<and> (r', c') \<in> set u"
  then obtain u where u: "u \<in> set all_units" "(r, c) \<in> set u" "(r', c') \<in> set u" by blast
  from u(1) consider k where "u = row_coords k" | k where "u = col_coords k"
    | k where "u = box_coords k"
    by (auto simp: set_all_units)
  then show "same_unit r c r' c'"
  proof cases
    case 1
    with u show ?thesis by (simp add: set_row_coords same_unit_def)
  next
    case 2
    with u show ?thesis by (simp add: set_col_coords same_unit_def)
  next
    case 3
    with u show ?thesis by (simp add: set_box_coords same_unit_def)
  qed
qed

lemma board9_nth: "board9 g \<Longrightarrow> r < 9 \<Longrightarrow> length (g ! r) = 9"
  by (simp add: board9_def list_all_length)

lemma board9_cell_is:
  "board9 g \<Longrightarrow> p \<in> set cells9 \<Longrightarrow> cell_is g (fst p) (snd p) v \<longleftrightarrow> cell_at g p = v"
  by (auto simp: cell_is_def cell_at_def set_cells9 board9_nth) (simp add: board9_def)

lemma board9_in_board: "board9 g \<Longrightarrow> r < 9 \<Longrightarrow> c < 9 \<Longrightarrow> in_board g r c"
  by (simp add: in_board_def board9_nth) (simp add: board9_def)

lemma board9_set_cell [simp]: "board9 (set_cell g r c v) = board9 g"
proof -
  have "length (set_cell g r c v ! i) = length (g ! i)" if "i < length g" for i
    using that by (simp add: nth_set_cell)
  then show ?thesis by (auto simp: board9_def list_all_length)
qed

lemma cell_at_set_cell:
  assumes "board9 g" "r < 9" "c < 9"
  shows "cell_at (set_cell g r c v) p = (if p = (r, c) then v else cell_at g p)"
proof -
  from assms have len: "r < length g" "c < length (g ! r)"
    by (simp_all add: board9_nth) (simp add: board9_def)
  obtain r' c' where p: "p = (r', c')" by (cases p)
  show ?thesis
  proof (cases "r' = r")
    case True
    with len p show ?thesis by (simp add: cell_at_def nth_set_cell nth_list_update)
  next
    case False
    with p show ?thesis by (simp add: cell_at_def set_cell_def)
  qed
qed

lemma each_digit_once_iff:
  assumes "length xs = 9"
  shows "each_digit_once xs \<longleftrightarrow> distinct xs \<and> set xs = {1..9}"
proof
  assume e: "each_digit_once xs"
  have sub: "{1..9} \<subseteq> set xs"
  proof
    fix d :: nat assume "d \<in> {1..9}"
    then have "d \<in> set [1..<10]" by auto
    with e have "count_list xs d = 1" by (simp add: each_digit_once_def list_all_iff)
    then show "d \<in> set xs" by (metis count_list_0_iff zero_neq_one)
  qed
  have "card (set xs) \<le> length xs" by (rule card_length)
  with assms have "card (set xs) \<le> card {1..9::nat}" by simp
  with sub have eq: "{1..9} = set xs" by (intro card_seteq) simp_all
  then have "card (set xs) = length xs" using assms by (metis card_atLeastAtMost diff_Suc_1 add_diff_cancel_left' Suc_eq_plus1)
  then have "distinct xs" by (rule card_distinct)
  with eq show "distinct xs \<and> set xs = {1..9}" by simp
next
  assume d: "distinct xs \<and> set xs = {1..9}"
  then have "count_list xs x = 1" if "x \<in> set [1..<10]" for x
    using that by (auto simp: distinct_count_atmost_1 count_mset)
  then show "each_digit_once xs" by (simp add: each_digit_once_def list_all_iff)
qed

lemma sudoku_iff:
  "sudoku g \<longleftrightarrow> board9 g \<and>
     (\<forall>u\<in>set all_units. distinct (unit_values g u) \<and> set (unit_values g u) = {1..9})"
proof -
  have "each_digit_once (unit_values g u) \<longleftrightarrow>
      distinct (unit_values g u) \<and> set (unit_values g u) = {1..9}" if "u \<in> set all_units" for u
    by (rule each_digit_once_iff) (simp add: unit_values_def unit_props(2) [OF that])
  then show ?thesis by (auto simp: sudoku_def list_all_iff)
qed

lemma cell_in_row_unit:
  assumes "p \<in> set cells9"
  shows "\<exists>u\<in>set all_units. p \<in> set u"
proof -
  obtain r c where p: "p = (r, c)" by (cases p)
  with assms have "r < 9" "c < 9" by (simp_all add: set_cells9)
  then have "row_coords r \<in> set all_units" "p \<in> set (row_coords r)"
    using p by (simp_all add: set_all_units set_row_coords)
  then show ?thesis by blast
qed

lemma sudoku_cells:
  assumes "sudoku g" "p \<in> set cells9"
  shows "1 \<le> cell_at g p" "cell_at g p \<le> 9"
proof -
  from cell_in_row_unit [OF assms(2)] obtain u where u: "u \<in> set all_units" "p \<in> set u"
    by blast
  with assms(1) have "set (unit_values g u) = {1..9}" by (simp add: sudoku_iff)
  moreover from u(2) have "cell_at g p \<in> set (unit_values g u)" by (simp add: unit_values_def)
  ultimately have "cell_at g p \<in> {1..9}" by simp
  then show "1 \<le> cell_at g p" "cell_at g p \<le> 9" by simp_all
qed

lemma sudoku_peers:
  assumes "sudoku g" "u \<in> set all_units" "p \<in> set u" "q \<in> set u" "p \<noteq> q"
  shows "cell_at g p \<noteq> cell_at g q"
proof -
  from assms(1,2) have "distinct (map (cell_at g) u)" by (simp add: sudoku_iff unit_values_def)
  then have "inj_on (cell_at g) (set u)" by (simp add: distinct_map)
  with assms(3-5) show ?thesis by (auto dest: inj_onD)
qed

lemma consistent_full_sudoku:
  assumes "consistent g" "\<forall>p\<in>set cells9. cell_at g p \<noteq> 0"
  shows "sudoku g"
  unfolding sudoku_iff
proof (intro conjI ballI)
  from assms(1) show "board9 g" by (simp add: consistent_def)
next
  fix u assume u: "u \<in> set all_units"
  note up = unit_props [OF u]
  have inj: "inj_on (cell_at g) (set u)"
  proof (rule inj_onI)
    fix p q assume pq: "p \<in> set u" "q \<in> set u" "cell_at g p = cell_at g q"
    from pq(1) up(3) assms(2) have "cell_at g p \<noteq> 0" by blast
    with assms(1) u pq show "p = q" unfolding consistent_def by blast
  qed
  with up(1) show d: "distinct (unit_values g u)" by (simp add: unit_values_def distinct_map)
  have "set (unit_values g u) \<subseteq> {1..9}"
  proof
    fix x assume "x \<in> set (unit_values g u)"
    then obtain p where p: "p \<in> set u" "x = cell_at g p" by (auto simp: unit_values_def)
    with up(3) have pc: "p \<in> set cells9" by blast
    with assms(2) have "cell_at g p \<noteq> 0" by blast
    moreover from assms(1) pc have "cell_at g p \<le> 9" by (simp add: consistent_def)
    ultimately show "x \<in> {1..9}" using p(2) by simp
  qed
  moreover have "card (set (unit_values g u)) = 9"
    using distinct_card [OF d] up(2) by (simp add: unit_values_def)
  ultimately show "set (unit_values g u) = {1..9}"
    by (intro card_subset_eq) simp_all
qed

lemma sub_assignment_iff:
  "sub_assignment g s \<longleftrightarrow> (\<forall>p\<in>set cells9. cell_at g p = 0 \<or> cell_at g p = cell_at s p)"
  by (simp add: sub_assignment_def list_all_iff)

lemma completion_consistent:
  assumes "sudoku s" "sub_assignment g s" "board9 g"
  shows "consistent g"
  unfolding consistent_def
proof (intro conjI ballI impI)
  show "board9 g" by fact
next
  fix p assume p: "p \<in> set cells9"
  with assms(2) have "cell_at g p = 0 \<or> cell_at g p = cell_at s p" by (simp add: sub_assignment_iff)
  with sudoku_cells(2) [OF assms(1) p] show "cell_at g p \<le> 9" by auto
next
  fix u p q assume a: "u \<in> set all_units" "p \<in> set u" "q \<in> set u"
    "p \<noteq> q \<and> cell_at g p \<noteq> 0"
  from a(1-3) unit_props(3) [OF a(1)] have pc: "p \<in> set cells9" "q \<in> set cells9" by auto
  from a(4) pc(1) assms(2) have gp: "cell_at g p = cell_at s p" by (auto simp: sub_assignment_iff)
  from pc(2) assms(2) have gq: "cell_at g q = 0 \<or> cell_at g q = cell_at s q"
    by (simp add: sub_assignment_iff)
  from sudoku_peers [OF assms(1) a(1-3)] a(4) have "cell_at s p \<noteq> cell_at s q" by simp
  with gp gq a(4) show "cell_at g p \<noteq> cell_at g q" by auto
qed

subsection \<open>Placing a digit\<close>

lemma isValid_units:
  assumes "board9 g" "(r, c) \<in> set cells9"
  shows "isValid g r c n \<longleftrightarrow>
     (\<forall>u\<in>set all_units. (r, c) \<in> set u \<longrightarrow> (\<forall>q\<in>set u. cell_at g q \<noteq> n))"
proof -
  from assms(2) have rc: "r < 9" "c < 9" by (simp_all add: set_cells9)
  have "isValid g r c n \<longleftrightarrow>
      \<not> (\<exists>r'<9. \<exists>c'<9. same_unit r c r' c' \<and> cell_is g r' c' n)"
    by (simp add: isValid_iff [OF rc] appears_in_units_def list_ex_cells9)
  also have "\<dots> \<longleftrightarrow>
      \<not> (\<exists>r'<9. \<exists>c'<9. same_unit r c r' c' \<and> cell_at g (r', c') = n)"
  proof -
    have "cell_is g r' c' n \<longleftrightarrow> cell_at g (r', c') = n" if "r' < 9" "c' < 9" for r' c'
      using board9_cell_is [OF assms(1), of "(r', c')" n] that by (simp add: set_cells9)
    then show ?thesis by blast
  qed
  also have "\<dots> \<longleftrightarrow>
      \<not> (\<exists>r'<9. \<exists>c'<9. (\<exists>u\<in>set all_units. (r, c) \<in> set u \<and> (r', c') \<in> set u) \<and>
         cell_at g (r', c') = n)"
    using same_unit_iff [OF rc] by blast
  also have "\<dots> \<longleftrightarrow>
      (\<forall>u\<in>set all_units. (r, c) \<in> set u \<longrightarrow> (\<forall>q\<in>set u. cell_at g q \<noteq> n))"
  proof -
    have "fst q < 9 \<and> snd q < 9" if "u \<in> set all_units" "q \<in> set u" for u q
      using unit_props(3) [OF that(1)] that(2) by (auto simp: set_cells9)
    then show ?thesis by (metis prod.collapse)
  qed
  finally show ?thesis .
qed

lemma place_consistent:
  assumes "consistent g" "(r, c) \<in> set cells9" "1 \<le> n" "n \<le> 9" "isValid g r c n"
  shows "consistent (set_cell g r c n)"
proof -
  from assms(1) have b: "board9 g" by (simp add: consistent_def)
  from assms(2) have rc: "r < 9" "c < 9" by (simp_all add: set_cells9)
  note at = cell_at_set_cell [OF b rc]
  note iv = isValid_units [OF b assms(2), THEN iffD1, OF assms(5), rule_format]
  show ?thesis
    unfolding consistent_def
  proof (intro conjI ballI impI)
    show "board9 (set_cell g r c n)" using b by simp
  next
    fix p assume "p \<in> set cells9"
    with assms(1,4) show "cell_at (set_cell g r c n) p \<le> 9"
      by (simp add: at consistent_def)
  next
    fix u p q assume a: "u \<in> set all_units" "p \<in> set u" "q \<in> set u"
      "p \<noteq> q \<and> cell_at (set_cell g r c n) p \<noteq> 0"
    show "cell_at (set_cell g r c n) p \<noteq> cell_at (set_cell g r c n) q"
    proof (cases "p = (r, c)")
      case True
      with a have "q \<noteq> (r, c)" by auto
      moreover from True a iv [of u q] have "cell_at g q \<noteq> n" by simp
      ultimately show ?thesis using True by (simp add: at)
    next
      case pn: False
      show ?thesis
      proof (cases "q = (r, c)")
        case True
        with a iv [of u p] have "cell_at g p \<noteq> n" by simp
        with pn True show ?thesis by (simp add: at)
      next
        case False
        from a(4) pn have "cell_at g p \<noteq> 0" by (simp add: at)
        with assms(1) a have "cell_at g p \<noteq> cell_at g q" unfolding consistent_def by blast
        with pn False show ?thesis by (simp add: at)
      qed
    qed
  qed
qed

lemma invalid_no_completion:
  assumes "board9 g" "(r, c) \<in> set cells9" "cell_at g (r, c) = 0" "n \<noteq> 0"
    "\<not> isValid g r c n"
  shows "\<not> completion (set_cell g r c n) s"
proof
  assume cs: "completion (set_cell g r c n) s"
  from assms(2) have rc: "r < 9" "c < 9" by (simp_all add: set_cells9)
  note at = cell_at_set_cell [OF assms(1) rc]
  from assms(5) obtain u q where u: "u \<in> set all_units" "(r, c) \<in> set u" "q \<in> set u"
    "cell_at g q = n"
    unfolding isValid_units [OF assms(1,2)] by blast
  from u(4) assms(3,4) have qn: "q \<noteq> (r, c)" by auto
  from u(1,3) unit_props(3) have qc: "q \<in> set cells9" by blast
  from cs have sub: "\<forall>p\<in>set cells9. cell_at (set_cell g r c n) p = 0 \<or>
      cell_at (set_cell g r c n) p = cell_at s p"
    by (simp add: completion_def sub_assignment_iff)
  from sub assms(2,4) have "cell_at s (r, c) = n" by (auto simp: at)
  moreover from sub qc qn u(4) assms(4) have "cell_at s q = n" by (auto simp: at)
  moreover from cs have "sudoku s" by (simp add: completion_def)
  from sudoku_peers [OF this u(1) u(3) u(2) qn] have "cell_at s q \<noteq> cell_at s (r, c)" .
  ultimately show False by simp
qed

lemma first_empty_None:
  assumes "first_empty g = None" "board9 g"
  shows "\<forall>p\<in>set cells9. cell_at g p \<noteq> 0"
proof
  fix p assume p: "p \<in> set cells9"
  from assms(1) have "\<not> (case p of (r, c) \<Rightarrow> cell_is g r c 0)"
    using p unfolding first_empty_def find_None_iff by blast
  then have "\<not> cell_is g (fst p) (snd p) 0" by (simp add: case_prod_unfold)
  with board9_cell_is [OF assms(2) p] show "cell_at g p \<noteq> 0" by simp
qed

lemma first_empty_cell:
  assumes "first_empty g = Some (r, c)" "board9 g"
  shows "(r, c) \<in> set cells9" "cell_at g (r, c) = 0" "set_cell g r c 0 = g"
proof -
  from first_empty_Some [OF assms(1)] have z: "cell_is g r c 0" and i: "in_board g r c"
    by simp_all
  from i show rc: "(r, c) \<in> set cells9" by (simp add: in_board_def set_cells9)
  from board9_cell_is [OF assms(2) rc] z show "cell_at g (r, c) = 0" by simp
  from z show "set_cell g r c 0 = g" by (rule set_cell_same)
qed

lemma sub_assignment_fill:
  assumes "board9 g" "(r, c) \<in> set cells9" "cell_at g (r, c) = 0"
    "sub_assignment (set_cell g r c n) s"
  shows "sub_assignment g s"
proof -
  from assms(2) have rc: "r < 9" "c < 9" by (simp_all add: set_cells9)
  note at = cell_at_set_cell [OF assms(1) rc]
  show ?thesis
    unfolding sub_assignment_iff
  proof
    fix p assume "p \<in> set cells9"
    with assms(4) have "cell_at (set_cell g r c n) p = 0 \<or>
        cell_at (set_cell g r c n) p = cell_at s p"
      by (simp add: sub_assignment_iff)
    with assms(3) show "cell_at g p = 0 \<or> cell_at g p = cell_at s p"
      by (cases "p = (r, c)") (simp_all add: at)
  qed
qed

lemma sub_assignment_place:
  assumes "board9 g" "(r, c) \<in> set cells9" "sub_assignment g s"
  shows "sub_assignment (set_cell g r c (cell_at s (r, c))) s"
proof -
  from assms(2) have rc: "r < 9" "c < 9" by (simp_all add: set_cells9)
  note at = cell_at_set_cell [OF assms(1) rc]
  from assms(3) show ?thesis
    unfolding sub_assignment_iff by (simp add: at)
qed

subsection \<open>solve: sound, complete, and restoring on failure\<close>

lemma solve_None: "first_empty b = None \<Longrightarrow> solve b rng = (True, b, rng)"
  by simp

lemma solve_Some:
  "first_empty b = Some (r, c) \<Longrightarrow>
     solve b rng = solve_nums b r c (fst (shuffle [1, 2, 3, 4, 5, 6, 7, 8, 9 :: nat] rng))
       (snd (shuffle [1, 2, 3, 4, 5, 6, 7, 8, 9 :: nat] rng))"
  by (simp add: case_prod_unfold)

lemma solve_nums_invalid:
  "\<not> isValid b r c num \<Longrightarrow> solve_nums b r c (num # nums) rng = solve_nums b r c nums rng"
  by simp

lemma solve_nums_valid:
  "isValid b r c num \<Longrightarrow>
     solve_nums b r c (num # nums) rng =
       (if fst (solve (set_cell b r c num) rng) then solve (set_cell b r c num) rng
        else solve_nums (set_cell (fst (snd (solve (set_cell b r c num) rng))) r c 0) r c nums
               (snd (snd (solve (set_cell b r c num) rng))))"
  by (cases "solve (set_cell b r c num) rng") simp

declare solve.simps [simp del] solve_nums.simps [simp del]

lemma sub_assignment_refl: "sub_assignment g g"
  by (simp add: sub_assignment_iff)

lemma solve_correct:
  "board9 b \<Longrightarrow>
     (\<not> fst (solve b rng) \<longrightarrow> fst (snd (solve b rng)) = b \<and> (\<forall>s. \<not> completion b s)) \<and>
     (fst (solve b rng) \<and> consistent b \<longrightarrow> completion b (fst (snd (solve b rng))))"
  "board9 b \<Longrightarrow> (r, c) \<in> set cells9 \<Longrightarrow> cell_at b (r, c) = 0 \<Longrightarrow> 0 \<notin> set nums \<Longrightarrow>
     (\<not> fst (solve_nums b r c nums rng) \<longrightarrow>
        fst (snd (solve_nums b r c nums rng)) = b \<and>
        (\<forall>n\<in>set nums. \<forall>s. \<not> completion (set_cell b r c n) s)) \<and>
     (fst (solve_nums b r c nums rng) \<and> consistent b \<and> set nums \<subseteq> {1..9} \<longrightarrow>
        completion b (fst (snd (solve_nums b r c nums rng))))"
proof (induction b rng and b r c nums rng rule: solve_solve_nums.induct)
  case (1 board rng)
  note b9 = \<open>board9 board\<close>
  show ?case
  proof (cases "first_empty board")
    case None
    have "sudoku board" if "consistent board"
      using that first_empty_None [OF None b9] by (rule consistent_full_sudoku)
    then show ?thesis
      by (simp add: solve_None [OF None] completion_def sub_assignment_refl)
  next
    case (Some rc)
    obtain r c where rc: "rc = (r, c)" by (cases rc)
    with Some have fe: "first_empty board = Some (r, c)" by simp
    note cell = first_empty_cell [OF fe b9]
    let ?nums = "fst (shuffle [1, 2, 3, 4, 5, 6, 7, 8, 9 :: nat] rng)"
    let ?rng1 = "snd (shuffle [1, 2, 3, 4, 5, 6, 7, 8, 9 :: nat] rng)"
    have nums: "set ?nums = {1..9}"
      unfolding shuffle_digits_set by auto
    then have n0: "0 \<notin> set ?nums" by simp
    have eq: "solve board rng = solve_nums board r c ?nums ?rng1"
      by (rule solve_Some [OF fe])
    have ih: "(\<not> fst (solve_nums board r c ?nums ?rng1) \<longrightarrow>
        fst (snd (solve_nums board r c ?nums ?rng1)) = board \<and>
        (\<forall>n\<in>set ?nums. \<forall>s. \<not> completion (set_cell board r c n) s)) \<and>
      (fst (solve_nums board r c ?nums ?rng1) \<and> consistent board \<and> set ?nums \<subseteq> {1..9} \<longrightarrow>
        completion board (fst (snd (solve_nums board r c ?nums ?rng1))))"
      by (rule "1.IH" [OF Some rc [symmetric] _ b9 cell(1) cell(2) n0]) simp
    have none: "\<not> completion board s"
      if "\<forall>n\<in>set ?nums. \<forall>s. \<not> completion (set_cell board r c n) s" for s
    proof
      assume cs: "completion board s"
      then have su: "sudoku s" and sa: "sub_assignment board s" by (simp_all add: completion_def)
      from sudoku_cells [OF su cell(1)] have "cell_at s (r, c) \<in> set ?nums"
        unfolding nums by simp
      moreover have "completion (set_cell board r c (cell_at s (r, c))) s"
        using su sub_assignment_place [OF b9 cell(1) sa] by (simp add: completion_def)
      ultimately show False using that by blast
    qed
    from ih none nums show ?thesis unfolding eq by auto
  qed
next
  case (2 board r c rng)
  then show ?case by (simp add: solve_nums.simps)
next
  case (3 board r c num nums rng)
  note b9 = \<open>board9 board\<close> and rc = \<open>(r, c) \<in> set cells9\<close>
    and z = \<open>cell_at board (r, c) = 0\<close>
  from \<open>0 \<notin> set (num # nums)\<close> have n0: "num \<noteq> 0" "0 \<notin> set nums" by auto
  from board9_cell_is [OF b9 rc] z have "cell_is board r c 0" by simp
  then have same: "set_cell board r c 0 = board" by (rule set_cell_same)
  show ?case
  proof (cases "isValid board r c num")
    case False
    have eq: "solve_nums board r c (num # nums) rng = solve_nums board r c nums rng"
      by (rule solve_nums_invalid [OF False])
    note ih = "3.IH"(3) [OF False b9 rc z n0(2)]
    from invalid_no_completion [OF b9 rc z n0(1) False]
    have "\<forall>s. \<not> completion (set_cell board r c num) s" by simp
    with ih show ?thesis unfolding eq by auto
  next
    case True
    let ?b1 = "set_cell board r c num"
    have b1: "board9 ?b1" using b9 by simp
    note ih1 = "3.IH"(1) [OF True b1]
    note eq = solve_nums_valid [OF True, of nums rng]
    show ?thesis
    proof (cases "fst (solve ?b1 rng)")
      case ok: True
      have "completion board (fst (snd (solve ?b1 rng)))"
        if "consistent board" "set (num # nums) \<subseteq> {1..9}"
      proof -
        from that have "consistent ?b1"
          by (intro place_consistent [OF _ rc _ _ True]) simp_all
        with ih1 ok have "completion ?b1 (fst (snd (solve ?b1 rng)))" by simp
        then show ?thesis
          using sub_assignment_fill [OF b9 rc z] by (auto simp: completion_def)
      qed
      with ok show ?thesis unfolding eq by simp
    next
      case fail: False
      with ih1 have fr: "fst (snd (solve ?b1 rng)) = ?b1" and nc: "\<forall>s. \<not> completion ?b1 s"
        by simp_all
      have eq2: "solve_nums board r c (num # nums) rng =
          solve_nums board r c nums (snd (snd (solve ?b1 rng)))"
        unfolding eq using fail by (simp add: fr same)
      have ih2: "(\<not> fst (solve_nums board r c nums (snd (snd (solve ?b1 rng)))) \<longrightarrow>
          fst (snd (solve_nums board r c nums (snd (snd (solve ?b1 rng))))) = board \<and>
          (\<forall>n\<in>set nums. \<forall>s. \<not> completion (set_cell board r c n) s)) \<and>
        (fst (solve_nums board r c nums (snd (snd (solve ?b1 rng)))) \<and> consistent board \<and>
           set nums \<subseteq> {1..9} \<longrightarrow>
          completion board (fst (snd (solve_nums board r c nums (snd (snd (solve ?b1 rng)))))))"
      proof -
        have e1: "(fst (solve ?b1 rng), snd (solve ?b1 rng)) = solve ?b1 rng" by simp
        have e2: "(fst (snd (solve ?b1 rng)), snd (snd (solve ?b1 rng))) = snd (solve ?b1 rng)"
          by simp
        note raw = "3.IH"(2) [OF True e1 e2 fail, unfolded fr set_cell_set_cell same]
        show ?thesis by (rule raw [OF b9 rc z n0(2)])
      qed
      from ih2 nc show ?thesis unfolding eq2 by auto
    qed
  qed
qed

subsection \<open>find counts the completions, up to the cutoff\<close>

lemma board9_eqI:
  assumes "board9 g" "board9 h" "\<And>p. p \<in> set cells9 \<Longrightarrow> cell_at g p = cell_at h p"
  shows "g = h"
proof (rule nth_equalityI)
  from assms(1,2) show "length g = length h" by (simp add: board9_def)
next
  fix r assume "r < length g"
  with assms(1) have r: "r < 9" by (simp add: board9_def)
  show "g ! r = h ! r"
  proof (rule nth_equalityI)
    from r assms(1,2) show "length (g ! r) = length (h ! r)" by (simp add: board9_nth)
  next
    fix c assume "c < length (g ! r)"
    with r assms(1) have "c < 9" by (simp add: board9_nth)
    with r assms(3) [of "(r, c)"] show "g ! r ! c = h ! r ! c"
      by (simp add: cell_at_def set_cells9)
  qed
qed

lemma finite_completions: "finite (completions g)"
proof -
  let ?rows = "{xs :: nat list. set xs \<subseteq> {..9} \<and> length xs = 9}"
  have "completions g \<subseteq> {s. set s \<subseteq> ?rows \<and> length s = 9}"
  proof
    fix s assume "s \<in> completions g"
    then have su: "sudoku s" by (simp add: completions_def completion_def)
    then have b: "board9 s" by (simp add: sudoku_def)
    have "row \<in> ?rows" if "row \<in> set s" for row
    proof -
      from that obtain r where r: "r < length s" "row = s ! r" by (auto simp: in_set_conv_nth)
      with b have r9: "r < 9" by (simp add: board9_def)
      have "x \<le> 9" if "x \<in> set row" for x
      proof -
        from that obtain c where c: "c < length row" "x = row ! c" by (auto simp: in_set_conv_nth)
        with r r9 b have "c < 9" by (simp add: board9_nth)
        with r9 sudoku_cells(2) [OF su, of "(r, c)"] c r show ?thesis
          by (simp add: set_cells9 cell_at_def)
      qed
      moreover from r r9 b have "length row = 9" by (simp add: board9_nth)
      ultimately show ?thesis by auto
    qed
    with b show "s \<in> {s. set s \<subseteq> ?rows \<and> length s = 9}" by (auto simp: board9_def)
  qed
  moreover have "finite {s. set s \<subseteq> ?rows \<and> length s = 9}"
    by (intro finite_lists_length_eq) simp
  ultimately show ?thesis by (rule finite_subset)
qed

lemma completions_full:
  assumes "consistent b" "\<forall>p\<in>set cells9. cell_at b p \<noteq> 0"
  shows "completions b = {b}"
proof -
  from assms have su: "sudoku b" by (rule consistent_full_sudoku)
  have "s = b" if "completion b s" for s
  proof (rule board9_eqI)
    from that show "board9 s" by (simp add: completion_def sudoku_def)
    from su show "board9 b" by (simp add: sudoku_def)
    fix p assume "p \<in> set cells9"
    with that assms(2) show "cell_at s p = cell_at b p"
      by (auto simp: completion_def sub_assignment_iff)
  qed
  moreover from su have "completion b b" by (simp add: completion_def sub_assignment_refl)
  ultimately show ?thesis by (auto simp: completions_def)
qed

lemma completions_fill:
  assumes "board9 g" "(r, c) \<in> set cells9" "cell_at g (r, c) = 0" "n \<noteq> 0"
  shows "completions (set_cell g r c n) = {s \<in> completions g. cell_at s (r, c) = n}"
proof -
  from assms(2) have rc: "r < 9" "c < 9" by (simp_all add: set_cells9)
  note at = cell_at_set_cell [OF assms(1) rc]
  have "sub_assignment (set_cell g r c n) s \<longleftrightarrow> sub_assignment g s \<and> cell_at s (r, c) = n"
    for s
  proof
    assume a: "sub_assignment (set_cell g r c n) s"
    from a assms(2,4) have "cell_at s (r, c) = n" by (auto simp: sub_assignment_iff at)
    with sub_assignment_fill [OF assms(1-3) a] show "sub_assignment g s \<and> cell_at s (r, c) = n"
      by simp
  next
    assume "sub_assignment g s \<and> cell_at s (r, c) = n"
    with sub_assignment_place [OF assms(1,2), of s] show "sub_assignment (set_cell g r c n) s"
      by auto
  qed
  then show ?thesis by (auto simp: completions_def completion_def)
qed

lemma isValid_own_cell:
  assumes "board9 b" "(r, c) \<in> set cells9" "cell_at b (r, c) \<noteq> n" "v \<noteq> n"
  shows "isValid (set_cell b r c v) r c n \<longleftrightarrow> isValid b r c n"
proof -
  from assms(2) have rc: "r < 9" "c < 9" by (simp_all add: set_cells9)
  note at = cell_at_set_cell [OF assms(1) rc]
  have "cell_at (set_cell b r c v) q \<noteq> n \<longleftrightarrow> cell_at b q \<noteq> n" for q
    using assms(3,4) by (simp add: at)
  then show ?thesis
    using assms(1,2) by (simp add: isValid_units)
qed

lemma first_empty_index_None:
  assumes "first_empty_index b = None" "board9 b"
  shows "\<forall>p\<in>set cells9. cell_at b p \<noteq> 0"
proof
  fix p assume p: "p \<in> set cells9"
  then have rc: "fst p < 9" "snd p < 9" by (auto simp: set_cells9)
  let ?i = "fst p * 9 + snd p"
  from rc have "?i \<in> set [0..<81]" by simp
  with assms(1) have "\<not> cell_is b (?i div 9) (?i mod 9) 0"
    unfolding first_empty_index_def find_None_iff by blast
  with rc have "\<not> cell_is b (fst p) (snd p) 0" by simp
  with board9_cell_is [OF assms(2) p] show "cell_at b p \<noteq> 0" by simp
qed

lemma first_empty_index_cell:
  assumes "first_empty_index b = Some i" "board9 b"
  shows "(i div 9, i mod 9) \<in> set cells9" "cell_at b (i div 9, i mod 9) = 0"
    "set_cell b (i div 9) (i mod 9) 0 = b"
proof -
  note fe = first_empty_index_Some [OF assms(1)]
  from fe(2) show rc: "(i div 9, i mod 9) \<in> set cells9" by (simp add: in_board_def set_cells9)
  from board9_cell_is [OF assms(2) rc] fe(1) show "cell_at b (i div 9, i mod 9) = 0" by simp
  from fe(1) show "set_cell b (i div 9) (i mod 9) 0 = b" by (rule set_cell_same)
qed

lemma find_rec_None: "first_empty_index b = None \<Longrightarrow> find_rec b n = (b, n + 1)"
  by simp

lemma find_rec_Some:
  "first_empty_index b = Some i \<Longrightarrow>
     find_rec b n =
       (set_cell (fst (find_nums b (i div 9) (i mod 9) 1 n)) (i div 9) (i mod 9) 0,
        snd (find_nums b (i div 9) (i mod 9) 1 n))"
  by (simp add: case_prod_unfold)

lemma find_nums_stop: "\<not> (num \<le> 9 \<and> n \<le> 1) \<Longrightarrow> find_nums b r c num n = (b, n)"
  by auto

lemma find_nums_invalid:
  "num \<le> 9 \<Longrightarrow> n \<le> 1 \<Longrightarrow> \<not> isValid b r c num \<Longrightarrow>
     find_nums b r c num n = find_nums b r c (num + 1) n"
  by simp

lemma find_nums_valid:
  "num \<le> 9 \<Longrightarrow> n \<le> 1 \<Longrightarrow> isValid b r c num \<Longrightarrow>
     find_nums b r c num n =
       find_nums (fst (find_rec (set_cell b r c num) n)) r c (num + 1)
         (snd (find_rec (set_cell b r c num) n))"
  by (simp add: case_prod_unfold)

declare find_rec.simps [simp del] find_nums.simps [simp del]

lemma completions_from_1:
  assumes "p \<in> set cells9"
  shows "completions_from g p (Suc 0) = completions g"
  using sudoku_cells(1) [OF _ assms]
  by (auto simp: completions_from_def completions_def completion_def)

lemma completions_from_above:
  assumes "p \<in> set cells9" "9 < k"
  shows "completions_from g p k = {}"
  using sudoku_cells(2) [OF _ assms(1)] assms(2)
  by (fastforce simp: completions_from_def completions_def completion_def)

lemma card_completions_from:
  assumes "board9 g" "(r, c) \<in> set cells9" "cell_at g (r, c) = 0" "num \<noteq> 0"
  shows "card (completions_from g (r, c) num) =
     card (completions (set_cell g r c num)) + card (completions_from g (r, c) (num + 1))"
proof -
  let ?C = "completions (set_cell g r c num)"
  let ?F = "completions_from g (r, c) (num + 1)"
  have C: "?C = {s \<in> completions g. cell_at s (r, c) = num}"
    by (rule completions_fill [OF assms])
  have "completions_from g (r, c) num = ?C \<union> ?F"
    unfolding C by (auto simp: completions_from_def)
  moreover have "?C \<inter> ?F = {}"
    unfolding C by (auto simp: completions_from_def)
  moreover have "finite ?C" by (rule finite_completions)
  moreover have "finite ?F"
    by (rule finite_subset [OF _ finite_completions [of g]]) (auto simp: completions_from_def)
  ultimately show ?thesis by (simp add: card_Un_disjoint)
qed

lemma find_correct:
  "board9 b \<Longrightarrow> consistent b \<Longrightarrow> n \<le> 1 \<Longrightarrow>
     find_rec b n = (b, min 2 (n + card (completions b)))"
  "board9 b \<Longrightarrow> (r, c) \<in> set cells9 \<Longrightarrow> consistent (set_cell b r c 0) \<Longrightarrow>
   cell_at b (r, c) < num \<Longrightarrow> n \<le> 1 \<Longrightarrow>
     set_cell (fst (find_nums b r c num n)) r c 0 = set_cell b r c 0 \<and>
     snd (find_nums b r c num n) =
       min 2 (n + card (completions_from (set_cell b r c 0) (r, c) num))"
proof (induction b n and b r c num n rule: find_rec_find_nums.induct)
  case (1 b n)
  note b9 = \<open>board9 b\<close> and cons = \<open>consistent b\<close> and n1 = \<open>n \<le> 1\<close>
  show ?case
  proof (cases "first_empty_index b")
    case None
    from completions_full [OF cons first_empty_index_None [OF None b9]]
    have "card (completions b) = 1" by simp
    with n1 show ?thesis by (simp add: find_rec_None [OF None])
  next
    case (Some i)
    let ?r = "i div 9" and ?c = "i mod 9"
    note cell = first_empty_index_cell [OF Some b9]
    from cons cell(3) have cons0: "consistent (set_cell b ?r ?c 0)" by simp
    from cell(2) have lt: "cell_at b (?r, ?c) < 1" by simp
    from "1.IH" [OF Some b9 cell(1) cons0 lt n1]
    have "set_cell (fst (find_nums b ?r ?c 1 n)) ?r ?c 0 = b"
      and "snd (find_nums b ?r ?c 1 n) = min 2 (n + card (completions b))"
      by (simp_all add: cell(3) completions_from_1 [OF cell(1)])
    then show ?thesis by (simp add: find_rec_Some [OF Some])
  qed
next
  case (2 b r c num n)
  note b9 = \<open>board9 b\<close> and rc = \<open>(r, c) \<in> set cells9\<close>
    and cons = \<open>consistent (set_cell b r c 0)\<close> and lt = \<open>cell_at b (r, c) < num\<close>
    and n1 = \<open>n \<le> 1\<close>
  let ?g = "set_cell b r c 0"
  from rc have rc9: "r < 9" "c < 9" by (simp_all add: set_cells9)
  have g9: "board9 ?g" using b9 by simp
  have gz: "cell_at ?g (r, c) = 0" by (simp add: cell_at_set_cell [OF b9 rc9])
  from lt have num0: "num \<noteq> 0" by simp
  show ?case
  proof (cases "num \<le> 9")
    case False
    then have "completions_from ?g (r, c) num = {}"
      by (intro completions_from_above [OF rc]) simp
    with False n1 show ?thesis by (simp add: find_nums_stop)
  next
    case num9: True
    with n1 have guard: "num \<le> 9 \<and> n \<le> 1" by simp
    have iv: "isValid ?g r c num \<longleftrightarrow> isValid b r c num"
      using lt num0 by (intro isValid_own_cell [OF b9 rc]) simp_all
    have card_step: "card (completions_from ?g (r, c) num) =
        card (completions (set_cell b r c num)) + card (completions_from ?g (r, c) (num + 1))"
      using card_completions_from [OF g9 rc gz num0] by simp
    show ?thesis
    proof (cases "isValid b r c num")
      case False
      have eq: "find_nums b r c num n = find_nums b r c (num + 1) n"
        by (rule find_nums_invalid [OF num9 n1 False])
      from lt have lt': "cell_at b (r, c) < num + 1" by simp
      note ih = "2.IH"(3) [OF guard False b9 rc cons lt' n1]
      from False iv have "\<not> isValid ?g r c num" by simp
      from invalid_no_completion [OF g9 rc gz num0 this]
      have "completions (set_cell b r c num) = {}" by (simp add: completions_def)
      with ih card_step show ?thesis unfolding eq by simp
    next
      case True
      let ?b1 = "set_cell b r c num"
      let ?n1 = "snd (find_rec ?b1 n)"
      have b19: "board9 ?b1" using b9 by simp
      from True iv have "isValid ?g r c num" by simp
      from place_consistent [OF cons rc _ num9 this] num0 have cons1: "consistent ?b1" by simp
      note ih1 = "2.IH"(1) [OF guard True b19 cons1 n1]
      then have fr: "fst (find_rec ?b1 n) = ?b1"
        and cnt: "?n1 = min 2 (n + card (completions ?b1))" by simp_all
      have eq: "find_nums b r c num n = find_nums ?b1 r c (num + 1) ?n1"
        using find_nums_valid [OF num9 n1 True] by (simp add: fr)
      show ?thesis
      proof (cases "?n1 \<le> 1")
        case small: True
        have pair: "(?b1, ?n1) = find_rec ?b1 n" using fr by (metis prod.collapse)
        have cons1': "consistent (set_cell ?b1 r c 0)" using cons by simp
        have lt1: "cell_at ?b1 (r, c) < num + 1" by (simp add: cell_at_set_cell [OF b9 rc9])
        note ih2 = "2.IH"(2) [OF guard True pair b19 rc cons1' lt1 small]
        from small cnt have "?n1 = n + card (completions ?b1)" by simp
        with ih2 card_step show ?thesis unfolding eq by simp
      next
        case False
        with cnt have two: "?n1 = 2" "2 \<le> n + card (completions ?b1)" by simp_all
        have "find_nums ?b1 r c (num + 1) ?n1 = (?b1, 2)"
          using two(1) by (simp add: find_nums_stop)
        with two(2) card_step show ?thesis unfolding eq by simp
      qed
    qed
  qed
qed

lemma hasUniqueSolution_iff:
  assumes "board9 b" "consistent b"
  shows "hasUniqueSolution b \<longleftrightarrow> card (completions b) = 1"
  using find_correct(1) [OF assms, of 0] by (auto simp: hasUniqueSolution_def)

lemma sudoku_example: "sudoku example_solution"
  by code_simp

lemma all_cells_eq: "all_cells = cells9"
  by code_simp

subsection \<open>The removal loop\<close>

lemma length_filter_one_more:
  assumes "distinct xs" "\<And>x. x \<in> set xs \<Longrightarrow> x \<noteq> a \<Longrightarrow> P x \<Longrightarrow> Q x"
  shows "length (filter P xs) \<le> length (filter Q xs) + 1"
  using assms
proof (induction xs)
  case Nil
  then show ?case by simp
next
  case (Cons x xs)
  show ?case
  proof (cases "x = a")
    case True
    with Cons.prems have "a \<notin> set xs" by simp
    then have "length (filter P xs) \<le> length (filter Q xs)"
      using Cons.prems(2) by (intro length_filter_mono) auto
    then show ?thesis by simp
  next
    case False
    from Cons have ih: "length (filter P xs) \<le> length (filter Q xs) + 1" by simp
    from False Cons.prems(2) [of x] have "P x \<Longrightarrow> Q x" by simp
    with ih show ?thesis by auto
  qed
qed

lemma distinct_cells9: "distinct cells9"
  by (simp add: cells9_def distinct_product)

lemma count_empty_clear_le: "count_empty (set_cell g r c 0) \<le> count_empty g + 1"
  unfolding count_empty_def
  by (rule length_filter_one_more [where a = "(r, c)", OF distinct_cells9])
    (auto simp: cell_is_set_cell split: if_splits)

lemma count_empty_sudoku:
  assumes "sudoku g"
  shows "count_empty g = 0"
proof -
  from assms have b: "board9 g" by (simp add: sudoku_def)
  have "\<not> cell_is g (fst p) (snd p) 0" if "p \<in> set cells9" for p
    using sudoku_cells(1) [OF assms that] board9_cell_is [OF b that, of 0] by simp
  then show ?thesis
    by (auto simp: count_empty_def filter_empty_conv)
qed

lemma restore_cell:
  assumes "board9 g" "(r, c) \<in> set cells9"
  shows "set_cell g r c (g ! r ! c) = g"
proof -
  from board9_cell_is [OF assms, of "g ! r ! c"] have "cell_is g r c (g ! r ! c)"
    by (simp add: cell_at_def)
  then show ?thesis by (rule set_cell_same)
qed

lemma sub_assignment_clear:
  assumes "board9 g" "(r, c) \<in> set cells9" "sub_assignment g s"
  shows "sub_assignment (set_cell g r c 0) s"
proof -
  from assms(2) have rc: "r < 9" "c < 9" by (simp_all add: set_cells9)
  from assms(3) show ?thesis
    unfolding sub_assignment_iff by (simp add: cell_at_set_cell [OF assms(1) rc])
qed

lemma loop_body_cases:
  assumes "loop_cond st" "board9 (grid st)" "set (cells st) \<subseteq> set cells9"
  obtains r c where "last (cells st) = (r, c)" "(r, c) \<in> set cells9"
    "\<not> hasUniqueSolution (set_cell (grid st) r c 0)"
    "loop_body st = st\<lparr>grid := grid st, cells := butlast (cells st)\<rparr>"
  | r c where "last (cells st) = (r, c)" "(r, c) \<in> set cells9"
    "hasUniqueSolution (set_cell (grid st) r c 0)"
    "loop_body st = st\<lparr>grid := set_cell (grid st) r c 0, cells := butlast (cells st),
        cellsToRemove := decrement (cellsToRemove st)\<rparr>"
proof -
  obtain r c where l: "last (cells st) = (r, c)" by (cases "last (cells st)")
  from assms(1) have "cells st \<noteq> []" by (simp add: loop_cond_def)
  then have "last (cells st) \<in> set (cells st)" by simp
  with assms(3) l have rc: "(r, c) \<in> set cells9" by auto
  show thesis
  proof (cases "hasUniqueSolution (set_cell (grid st) r c 0)")
    case True
    with l have "loop_body st = st\<lparr>grid := set_cell (grid st) r c 0, cells := butlast (cells st),
        cellsToRemove := decrement (cellsToRemove st)\<rparr>"
      by (simp add: loop_body_def Let_def)
    with l rc True show ?thesis by (rule that(2))
  next
    case False
    with l have "loop_body st = st\<lparr>grid := grid st, cells := butlast (cells st)\<rparr>"
      by (simp add: loop_body_def Let_def restore_cell [OF assms(2) rc])
    with l rc False show ?thesis by (rule that(1))
  qed
qed

lemma gen_inv_body:
  assumes "gen_inv sol st" "loop_cond st"
  shows "gen_inv sol (loop_body st)"
proof -
  from assms(1) have b: "board9 (grid st)" and sub: "sub_assignment (grid st) sol"
    and u: "hasUniqueSolution (grid st)" and cs: "set (cells st) \<subseteq> set cells9"
    by (simp_all add: gen_inv_def)
  have cs': "set (butlast (cells st)) \<subseteq> set cells9"
    using cs by (meson in_set_butlastD subset_iff)
  from assms(2) b cs show ?thesis
  proof (cases rule: loop_body_cases)
    case (1 r c)
    with b sub u cs' show ?thesis by (simp add: gen_inv_def)
  next
    case (2 r c)
    with b sub_assignment_clear [OF b 2(2) sub] cs' show ?thesis by (simp add: gen_inv_def)
  qed
qed

lemma gen_inv_loop: "gen_inv sol st \<Longrightarrow> gen_inv sol (removal_loop st)"
proof (induction st rule: removal_loop.induct)
  case (1 st)
  show ?case
  proof (cases "loop_cond st")
    case True
    with 1 show ?thesis by (simp add: gen_inv_body removal_loop_step)
  next
    case False
    with 1 show ?thesis by (simp add: removal_loop_done)
  qed
qed

lemma within_target_body:
  assumes "within_target K st" "loop_cond st" "board9 (grid st)" "set (cells st) \<subseteq> set cells9"
  shows "within_target K (loop_body st)"
proof -
  from assms(1) obtain k where k: "cellsToRemove st = Number k" "count_empty (grid st) + k \<le> K"
    by (auto simp: within_target_def)
  from assms(2) k(1) have pos: "0 < k" by (simp add: loop_cond_def positive_def)
  from assms(2-4) show ?thesis
  proof (cases rule: loop_body_cases)
    case (1 r c)
    with k show ?thesis by (simp add: within_target_def)
  next
    case (2 r c)
    from count_empty_clear_le [of "grid st" r c] k(2) pos
    have "count_empty (set_cell (grid st) r c 0) + (k - 1) \<le> K" by simp
    with 2 k(1) show ?thesis by (simp add: within_target_def decrement_def)
  qed
qed

lemma within_target_loop:
  "within_target K st \<Longrightarrow> gen_inv sol st \<Longrightarrow> within_target K (removal_loop st)"
proof (induction st rule: removal_loop.induct)
  case (1 st)
  show ?case
  proof (cases "loop_cond st")
    case True
    from "1.prems" True have "within_target K (loop_body st)"
      by (intro within_target_body) (simp_all add: gen_inv_def)
    with 1 True show ?thesis by (simp add: gen_inv_body removal_loop_step)
  next
    case False
    with 1 show ?thesis by (simp add: removal_loop_done)
  qed
qed

lemma loop_iterations_le: "loop_iterations st \<le> length (cells st)"
proof (induction st rule: loop_iterations.induct)
  case (1 st)
  show ?case
  proof (cases "loop_cond st")
    case True
    then have "0 < length (cells st)" by (simp add: loop_cond_def)
    moreover from 1 True have "loop_iterations (loop_body st) \<le> length (cells st) - 1"
      by simp
    ultimately show ?thesis unfolding loop_iterations_step [OF True] by linarith
  next
    case False
    then show ?thesis by (simp add: loop_iterations_done)
  qed
qed

lemma cell_at_empty: "p \<in> set cells9 \<Longrightarrow> cell_at emptyBoard p = 0"
  by (auto simp: set_cells9 cell_at_def emptyBoard_def)

lemma board9_empty: "board9 emptyBoard"
  by (simp add: board9_def emptyBoard_def list_all_iff)

lemma consistent_empty: "consistent emptyBoard"
  unfolding consistent_def
proof (intro conjI ballI impI)
  show "board9 emptyBoard" by (rule board9_empty)
next
  fix p assume "p \<in> set cells9"
  then show "cell_at emptyBoard p \<le> 9" by (simp add: cell_at_empty)
next
  fix u p q assume "u \<in> set all_units" "p \<in> set u" "p \<noteq> q \<and> cell_at emptyBoard p \<noteq> 0"
  with unit_props(3) [of u] cell_at_empty [of p] show "cell_at emptyBoard p \<noteq> cell_at emptyBoard q"
    by auto
qed

lemma completion_empty: "completion emptyBoard example_solution"
  using sudoku_example by (simp add: completion_def sub_assignment_iff cell_at_empty)

lemma solve_empty:
  shows "fst (solve emptyBoard rng)" and "sudoku (fst (snd (solve emptyBoard rng)))"
proof -
  note sc = solve_correct(1) [OF board9_empty, of rng]
  from sc completion_empty show ok: "fst (solve emptyBoard rng)" by blast
  with sc consistent_empty show "sudoku (fst (snd (solve emptyBoard rng)))"
    by (simp add: completion_def)
qed

lemma loop_entry_eq:
  "loop_entry diff rng =
     (\<lparr>grid = fst (snd (solve emptyBoard rng)),
       cells = fst (shuffle all_cells (snd (snd (solve emptyBoard rng)))),
       cellsToRemove = initial_cellsToRemove diff\<rparr>,
      fst (snd (solve emptyBoard rng)))"
  by (simp add: loop_entry_def case_prod_unfold Let_def)

lemma generatePuzzle_eq:
  "generatePuzzle diff rng =
     (grid (removal_loop (fst (loop_entry diff rng))), fst (snd (solve emptyBoard rng)))"
  by (simp add: generatePuzzle_def loop_entry_eq)

lemma sudoku_consistent: "sudoku g \<Longrightarrow> consistent g"
  by (rule completion_consistent [OF _ sub_assignment_refl]) (simp_all add: sudoku_def)

lemma sudoku_unique:
  assumes "sudoku g"
  shows "hasUniqueSolution g"
proof -
  from assms have b: "board9 g" by (simp add: sudoku_def)
  note c = sudoku_consistent [OF assms]
  have "\<forall>p\<in>set cells9. cell_at g p \<noteq> 0"
    using sudoku_cells(1) [OF assms] by fastforce
  from completions_full [OF c this] show ?thesis
    by (simp add: hasUniqueSolution_iff [OF b c])
qed

lemma entry_cells:
  "mset (cells (fst (loop_entry diff rng))) = mset cells9"
  by (simp add: loop_entry_eq shuffle_mset all_cells_eq)

lemma entry_inv:
  "gen_inv (fst (snd (solve emptyBoard rng))) (fst (loop_entry diff rng))"
proof -
  note su = solve_empty(2) [of rng]
  have "set (cells (fst (loop_entry diff rng))) = set cells9"
    by (rule mset_eq_setD [OF entry_cells])
  with su sudoku_unique [OF su] show ?thesis
    by (simp add: gen_inv_def loop_entry_eq sub_assignment_refl sudoku_def)
qed

lemma final_inv:
  "gen_inv (snd (generatePuzzle diff rng)) (removal_loop (fst (loop_entry diff rng)))"
  unfolding generatePuzzle_eq snd_conv by (rule gen_inv_loop [OF entry_inv])

lemma puzzle_facts:
  shows "board9 (fst (generatePuzzle diff rng))"
    and "sub_assignment (fst (generatePuzzle diff rng)) (snd (generatePuzzle diff rng))"
    and "hasUniqueSolution (fst (generatePuzzle diff rng))"
    and "sudoku (snd (generatePuzzle diff rng))"
  using final_inv [of diff rng] solve_empty(2) [of rng]
  by (simp_all add: gen_inv_def generatePuzzle_eq)

lemma card_one_ex1: "card A = 1 \<Longrightarrow> \<exists>!x. x \<in> A"
  by (auto simp: card_1_singleton_iff)

lemma generated_within_target:
  assumes "initial_cellsToRemove diff = Number K"
  shows "count_empty (fst (generatePuzzle diff rng)) \<le> K"
proof -
  have "within_target K (fst (loop_entry diff rng))"
    using assms count_empty_sudoku [OF solve_empty(2) [of rng]]
    by (simp add: within_target_def loop_entry_eq)
  from within_target_loop [OF this entry_inv] show ?thesis
    by (auto simp: within_target_def generatePuzzle_eq)
qed

lemma length_cells9: "length cells9 = 81"
  by (simp add: cells9_def)

lemma nonempty_cell_exists:
  assumes "board9 g" "count_empty g < 81"
  shows "\<exists>r<9. \<exists>c<9. g ! r ! c \<noteq> 0"
proof (rule ccontr)
  assume "\<not> (\<exists>r<9. \<exists>c<9. g ! r ! c \<noteq> 0)"
  then have "cell_is g (fst p) (snd p) 0" if "p \<in> set cells9" for p
    using board9_cell_is [OF assms(1) that, of 0] that by (auto simp: set_cells9 cell_at_def)
  then have "filter (\<lambda>(r, c). cell_is g r c 0) cells9 = cells9"
    by (auto simp: filter_id_conv)
  with assms(2) show False by (simp add: count_empty_def length_cells9)
qed

lemma sudoku_digits:
  assumes "sudoku g"
  shows "list_all (list_all (\<lambda>v. 1 \<le> v \<and> v \<le> 9)) g"
proof -
  from assms have b: "board9 g" by (simp add: sudoku_def)
  have "1 \<le> g ! r ! c \<and> g ! r ! c \<le> 9" if "r < length g" "c < length (g ! r)" for r c
  proof -
    from that b have "r < 9" "c < 9" by (simp_all add: board9_def board9_nth)
    then have "(r, c) \<in> set cells9" by (simp add: set_cells9)
    from sudoku_cells [OF assms this] show ?thesis by (simp add: cell_at_def)
  qed
  then show ?thesis by (simp add: list_all_length)
qed

lemma removal_loop_funpow: "removal_loop st = (loop_body ^^ loop_iterations st) st"
proof (induction st rule: removal_loop.induct)
  case (1 st)
  show ?case
  proof (cases "loop_cond st")
    case True
    with 1 show ?thesis
      by (simp add: removal_loop_step loop_iterations_step funpow_swap1)
  next
    case False
    then show ?thesis by (simp add: removal_loop_done loop_iterations_done)
  qed
qed

lemma removal_loop_exit: "\<not> loop_cond (removal_loop st)"
proof (induction st rule: removal_loop.induct)
  case (1 st)
  show ?case
  proof (cases "loop_cond st")
    case True
    with 1 show ?thesis by (simp add: removal_loop_step)
  next
    case False
    then show ?thesis by (simp add: removal_loop_done)
  qed
qed

subsection \<open>Difficulty keys\<close>

lemma single_clear_unique:
  assumes "sudoku sol" "(r, c) \<in> set cells9"
  shows "hasUniqueSolution (set_cell sol r c 0)"
proof -
  let ?b = "set_cell sol r c 0"
  from assms(1) have s9: "board9 sol" by (simp add: sudoku_def)
  then have b9: "board9 ?b" by simp
  from assms(2) have rc: "r < 9" "c < 9" by (simp_all add: set_cells9)
  note at = cell_at_set_cell [OF s9 rc]
  have sub: "sub_assignment ?b sol"
    by (rule sub_assignment_clear [OF s9 assms(2) sub_assignment_refl])
  have cons: "consistent ?b" by (rule completion_consistent [OF assms(1) sub b9])
  have "s = sol" if cs: "completion ?b s" for s
  proof (rule board9_eqI)
    from cs have su: "sudoku s" and sa: "sub_assignment ?b s" by (simp_all add: completion_def)
    from su show "board9 s" by (simp add: sudoku_def)
    show "board9 sol" by fact
    fix p assume p: "p \<in> set cells9"
    have other: "cell_at s q = cell_at sol q" if "q \<in> set cells9" "q \<noteq> (r, c)" for q
    proof -
      from sa that(1) have "cell_at ?b q = 0 \<or> cell_at ?b q = cell_at s q"
        by (simp add: sub_assignment_iff)
      with that(2) sudoku_cells(1) [OF assms(1) that(1)] show ?thesis by (simp add: at)
    qed
    show "cell_at s p = cell_at sol p"
    proof (cases "p = (r, c)")
      case False
      with p show ?thesis by (rule other)
    next
      case True
      from cell_in_row_unit [OF assms(2)] obtain u where u: "u \<in> set all_units" "(r, c) \<in> set u"
        by blast
      from sudoku_cells [OF assms(1) assms(2)] have "cell_at sol (r, c) \<in> {1..9}" by simp
      also from su u(1) have "{1..9} = set (unit_values s u)" by (simp add: sudoku_iff)
      finally obtain q where q: "q \<in> set u" "cell_at s q = cell_at sol (r, c)"
        by (auto simp: unit_values_def)
      have "q = (r, c)"
      proof (rule ccontr)
        assume n: "q \<noteq> (r, c)"
        from q(1) unit_props(3) [OF u(1)] have "q \<in> set cells9" by blast
        from other [OF this n] q(2) have "cell_at sol q = cell_at sol (r, c)" by simp
        with sudoku_peers [OF assms(1) u(1) q(1) u(2) n] show False by simp
      qed
      with q(2) True show ?thesis by simp
    qed
  qed
  moreover from assms(1) sub have "completion ?b sol" by (simp add: completion_def)
  ultimately have "completions ?b = {sol}" by (auto simp: completions_def)
  then show ?thesis by (simp add: hasUniqueSolution_iff [OF b9 cons])
qed

lemma cleared_stays_cleared:
  "gen_inv sol st \<Longrightarrow> cell_at (grid st) p = 0 \<Longrightarrow> cell_at (grid (removal_loop st)) p = 0"
proof (induction st rule: removal_loop.induct)
  case (1 st)
  show ?case
  proof (cases "loop_cond st")
    case False
    with "1.prems" show ?thesis by (simp add: removal_loop_done)
  next
    case True
    from "1.prems"(1) have b: "board9 (grid st)" and cs: "set (cells st) \<subseteq> set cells9"
      by (simp_all add: gen_inv_def)
    have "cell_at (grid (loop_body st)) p = 0"
      using True b cs
    proof (cases rule: loop_body_cases)
      case (1 r c)
      with "1.prems"(2) show ?thesis by simp
    next
      case (2 r c)
      from 2(2) have "r < 9" "c < 9" by (simp_all add: set_cells9)
      with 2(4) "1.prems"(2) b show ?thesis by (simp add: cell_at_set_cell)
    qed
    with "1.IH" [OF True gen_inv_body [OF "1.prems"(1) True]] show ?thesis
      by (simp add: removal_loop_step [OF True])
  qed
qed

lemma count_empty_pos:
  assumes "board9 g" "p \<in> set cells9" "cell_at g p = 0"
  shows "0 < count_empty g"
proof -
  from board9_cell_is [OF assms(1,2), of 0] assms(3) have "cell_is g (fst p) (snd p) 0" by simp
  with assms(2) have "p \<in> set (filter (\<lambda>(r, c). cell_is g r c 0) cells9)"
    by (simp add: case_prod_unfold)
  then show ?thesis unfolding count_empty_def by (rule length_pos_if_in_set)
qed

lemma positive_target_removes:
  assumes "initial_cellsToRemove diff = Number K" "0 < K"
  shows "0 < count_empty (fst (generatePuzzle diff rng))"
proof -
  let ?sol = "fst (snd (solve emptyBoard rng))"
  let ?st = "fst (loop_entry diff rng)"
  note inv = entry_inv [of rng diff]
  have su: "sudoku ?sol" by (rule solve_empty(2))
  have g: "grid ?st = ?sol" by (simp add: loop_entry_eq)
  from inv have b: "board9 (grid ?st)" and cs: "set (cells ?st) \<subseteq> set cells9"
    by (simp_all add: gen_inv_def)
  have "length (cells ?st) = 81"
    using mset_eq_length [OF entry_cells [of diff rng]] by (simp add: length_cells9)
  with assms have lc: "loop_cond ?st"
    by (simp add: loop_cond_def positive_def loop_entry_eq)
  from lc b cs obtain r c where rc: "(r, c) \<in> set cells9"
    and body: "loop_body ?st = ?st\<lparr>grid := set_cell (grid ?st) r c 0, cells := butlast (cells ?st),
        cellsToRemove := decrement (cellsToRemove ?st)\<rparr>"
  proof (cases rule: loop_body_cases)
    case (1 r c)
    with single_clear_unique [OF su 1(2)] g show ?thesis by simp
  next
    case (2 r c)
    with that show ?thesis by blast
  qed
  from rc have rc9: "r < 9" "c < 9" by (simp_all add: set_cells9)
  have z: "cell_at (grid (loop_body ?st)) (r, c) = 0"
    unfolding body using b rc9 by (simp add: cell_at_set_cell)
  from cleared_stays_cleared [OF gen_inv_body [OF inv lc] z]
  have "cell_at (grid (removal_loop ?st)) (r, c) = 0"
    by (simp add: removal_loop_step [OF lc])
  then have "cell_at (fst (generatePuzzle diff rng)) (r, c) = 0"
    by (simp add: generatePuzzle_eq)
  from count_empty_pos [OF puzzle_facts(1) rc this] show ?thesis .
qed

lemma inherited_no_removal:
  assumes "initial_cellsToRemove diff = Inherited"
  shows "fst (generatePuzzle diff rng) = snd (generatePuzzle diff rng)"
proof -
  from assms have "\<not> loop_cond (fst (loop_entry diff rng))"
    by (simp add: loop_cond_def positive_def loop_entry_eq)
  then show ?thesis by (simp add: generatePuzzle_eq removal_loop_done loop_entry_eq)
qed

lemma unknown_difficulty_fallback:
  assumes "diff \<notin> set (map fst difficultyMap)" "diff \<notin> set object_prototype_members"
  shows "generatePuzzle diff rng = generatePuzzle ''medium'' rng"
proof -
  from assms(1) have "map_of difficultyMap diff = None" by (simp add: map_of_eq_None_iff)
  with assms(2) have "initial_cellsToRemove diff = Number 46"
    by (simp add: initial_cellsToRemove_def lookup_difficulty_def)
  moreover have "initial_cellsToRemove ''medium'' = Number 46"
    by (simp add: initial_cellsToRemove_def lookup_difficulty_def difficultyMap_def truthy_def)
  ultimately show ?thesis by (simp add: generatePuzzle_def loop_entry_def)
qed

subsection \<open>The heap\<close>

lemma length_h_set_cell [simp]: "length (h_set_cell h a r c v) = length h"
  by (simp add: h_set_cell_def Let_def)

lemma h_set_cell_other:
  assumes "x \<notin> set (h_rows h a)"
  shows "h_set_cell h a r c v ! x = h ! x"
proof (cases "r < length (h_rows h a)")
  case True
  then have "h_rows h a ! r \<in> set (h_rows h a)" by simp
  with assms have "h_rows h a ! r \<noteq> x" by auto
  with True show ?thesis by (simp add: h_set_cell_def Let_def)
next
  case False
  then show ?thesis by (simp add: h_set_cell_def)
qed

lemma h_rows_set_cell [simp]:
  assumes "own_rows h a"
  shows "h_rows (h_set_cell h a r c v) a = h_rows h a"
proof -
  from assms have "a \<notin> set (h_rows h a)" by (simp add: own_rows_def)
  from h_set_cell_other [OF this] show ?thesis by (simp add: h_rows_def)
qed

lemma h_row_set_cell:
  assumes "own_rows h a" "ra \<in> set (h_rows h a)"
  shows "h_row (h_set_cell h a r c v) ra =
     (if r < length (h_rows h a) \<and> ra = h_rows h a ! r then (h_row h ra)[c := v] else h_row h ra)"
proof -
  from assms have ra: "ra < length h" by (auto simp: own_rows_def list_all_iff)
  then show ?thesis
    by (auto simp: h_set_cell_def Let_def h_row_def nth_list_update)
qed

lemma own_rows_set_cell [simp]:
  assumes "own_rows h a"
  shows "own_rows (h_set_cell h a r c v) a"
proof -
  have "h_set_cell h a r c v ! ra = NumArray (h_row (h_set_cell h a r c v) ra)"
    if "ra \<in> set (h_rows h a)" for ra
  proof -
    from assms that have ra: "ra < length h" "h ! ra = NumArray (h_row h ra)"
      by (auto simp: own_rows_def list_all_iff)
    then show ?thesis
      unfolding h_row_set_cell [OF assms that]
      by (auto simp: h_set_cell_def Let_def nth_list_update)
  qed
  with assms show ?thesis
    by (auto simp: own_rows_def list_all_iff)
qed

lemma board_of_set_cell:
  assumes "own_rows h a"
  shows "board_of (h_set_cell h a r c v) a = set_cell (board_of h a) r c v"
proof (rule nth_equalityI)
  show "length (board_of (h_set_cell h a r c v) a) = length (set_cell (board_of h a) r c v)"
    using assms by (simp add: board_of_def)
next
  fix i assume "i < length (board_of (h_set_cell h a r c v) a)"
  with assms have i: "i < length (h_rows h a)" by (simp add: board_of_def)
  from assms have d: "distinct (h_rows h a)" by (simp add: own_rows_def)
  from i have mem: "h_rows h a ! i \<in> set (h_rows h a)" by simp
  have "h_rows h a ! i = h_rows h a ! r \<longleftrightarrow> i = r" if "r < length (h_rows h a)"
    using d i that by (simp add: nth_eq_iff_index_eq)
  with i show "board_of (h_set_cell h a r c v) a ! i = set_cell (board_of h a) r c v ! i"
    using assms by (auto simp: board_of_def h_row_set_cell [OF assms mem] nth_set_cell)
qed

lemma heap_step_refl: "own_rows h b \<Longrightarrow> heap_step h h b"
  by (simp add: heap_step_def)

lemma heap_step_trans: "heap_step h h1 b \<Longrightarrow> heap_step h1 h2 b \<Longrightarrow> heap_step h h2 b"
  by (simp add: heap_step_def)

lemma heap_step_set_cell: "own_rows h b \<Longrightarrow> heap_step h (h_set_cell h b r c v) b"
  by (simp add: heap_step_def h_set_cell_other)

lemma heap_step_own: "heap_step h h' b \<Longrightarrow> own_rows h' b"
  by (simp add: heap_step_def)

lemma find_h_sim:
  "own_rows h b \<Longrightarrow> find_h fuel h b n = Some (h', n') \<Longrightarrow>
     heap_step h h' b \<and> find_rec (board_of h b) n = (board_of h' b, n')"
  "own_rows h b \<Longrightarrow> find_nums_h fuel h b r c num n = Some (h', n') \<Longrightarrow>
     heap_step h h' b \<and> find_nums (board_of h b) r c num n = (board_of h' b, n')"
proof (induction fuel h b n and fuel h b r c num n arbitrary: h' n' and h' n'
    rule: find_h_find_nums_h.induct)
  case (1 h b solutionCount)
  then show ?case by simp
next
  case (2 fuel h b n)
  note own = \<open>own_rows h b\<close>
  show ?case
  proof (cases "first_empty_index (board_of h b)")
    case None
    with "2.prems"(2) have "h' = h" "n' = n + 1" by simp_all
    with own show ?thesis by (simp add: heap_step_refl find_rec_None [OF None])
  next
    case (Some i)
    let ?r = "i div 9" and ?c = "i mod 9"
    from "2.prems"(2) Some obtain h1 n1 where
      f: "find_nums_h fuel h b ?r ?c 1 n = Some (h1, n1)"
      and res: "h' = h_set_cell h1 b ?r ?c 0" "n' = n1"
      by (auto split: option.splits)
    from "2.IH" [OF Some own f] have st: "heap_step h h1 b"
      and sim: "find_nums (board_of h b) ?r ?c 1 n = (board_of h1 b, n1)" by simp_all
    note own1 = heap_step_own [OF st]
    have "heap_step h h' b"
      unfolding res by (rule heap_step_trans [OF st heap_step_set_cell [OF own1]])
    moreover have "find_rec (board_of h b) n = (board_of h' b, n')"
      unfolding res find_rec_Some [OF Some] sim by (simp add: board_of_set_cell [OF own1])
    ultimately show ?thesis by simp
  qed
next
  case (3 h b r c num solutionCount)
  then show ?case by simp
next
  case (4 fuel h b r c num n)
  note own = \<open>own_rows h b\<close>
  show ?case
  proof (cases "num \<le> 9 \<and> n \<le> 1")
    case False
    with "4.prems"(2) have "h' = h" "n' = n" by auto
    with own False show ?thesis by (simp add: heap_step_refl find_nums_stop)
  next
    case guard: True
    then have num9: "num \<le> 9" and n1: "n \<le> 1" by simp_all
    show ?thesis
    proof (cases "isValid (board_of h b) r c num")
      case False
      with "4.prems"(2) guard have "find_nums_h fuel h b r c (num + 1) n = Some (h', n')"
        by simp
      from "4.IH"(3) [OF guard False own this] show ?thesis
        by (simp add: find_nums_invalid [OF num9 n1 False])
    next
      case True
      let ?hs = "h_set_cell h b r c num"
      have owns: "own_rows ?hs b" using own by simp
      from "4.prems"(2) guard True obtain h1 m1 where
        f: "find_h fuel ?hs b n = Some (h1, m1)"
        and g: "find_nums_h fuel h1 b r c (num + 1) m1 = Some (h', n')"
        by (auto split: option.splits)
      from "4.IH"(1) [OF guard True owns f] have st1: "heap_step ?hs h1 b"
        and sim1: "find_rec (set_cell (board_of h b) r c num) n = (board_of h1 b, m1)"
        by (simp_all add: board_of_set_cell [OF own])
      note own1 = heap_step_own [OF st1]
      from "4.IH"(2) [OF guard True f refl own1 g] have st2: "heap_step h1 h' b"
        and sim2: "find_nums (board_of h1 b) r c (num + 1) m1 = (board_of h' b, n')"
        by simp_all
      have "heap_step h h' b"
        by (rule heap_step_trans [OF heap_step_trans [OF heap_step_set_cell [OF own] st1] st2])
      moreover have "find_nums (board_of h b) r c num n = (board_of h' b, n')"
        unfolding find_nums_valid [OF num9 n1 True] sim1 fst_conv snd_conv by (rule sim2)
      ultimately show ?thesis by simp
    qed
  qed
qed

lemma find_h_total:
  "\<exists>F. \<forall>h a fuel. own_rows h a \<and> board_of h a = b \<and> F \<le> fuel \<longrightarrow> find_h fuel h a n \<noteq> None"
  "\<exists>F. \<forall>h a fuel. own_rows h a \<and> board_of h a = b \<and> F \<le> fuel \<longrightarrow>
     find_nums_h fuel h a r c num n \<noteq> None"
proof (induction b n and b r c num n rule: find_rec_find_nums.induct)
  case (1 b n)
  show ?case
  proof (cases "first_empty_index b")
    case None
    have "find_h fuel h a n \<noteq> None" if "board_of h a = b" "1 \<le> fuel" for h a fuel
      using that None by (cases fuel) simp_all
    then show ?thesis by blast
  next
    case (Some i)
    from "1.IH" [OF Some] obtain F where F: "\<And>h a fuel. own_rows h a \<Longrightarrow> board_of h a = b \<Longrightarrow>
        F \<le> fuel \<Longrightarrow> find_nums_h fuel h a (i div 9) (i mod 9) 1 n \<noteq> None"
      by blast
    have "find_h fuel h a n \<noteq> None" if "own_rows h a" "board_of h a = b" "Suc F \<le> fuel"
      for h a fuel
    proof -
      from that(3) obtain f where f: "fuel = Suc f" "F \<le> f" by (cases fuel) simp_all
      from F [OF that(1,2) f(2)] show ?thesis
        unfolding f(1) using Some that(2) by (auto split: option.splits)
    qed
    then show ?thesis by blast
  qed
next
  case (2 b r c num n)
  show ?case
  proof (cases "num \<le> 9 \<and> n \<le> 1")
    case False
    have "find_nums_h fuel h a r c num n \<noteq> None" if "1 \<le> fuel" for h a fuel
      using that False by (cases fuel) auto
    then show ?thesis by blast
  next
    case guard: True
    show ?thesis
    proof (cases "isValid b r c num")
      case False
      from "2.IH"(3) [OF guard False] obtain F where F: "\<And>h a fuel. own_rows h a \<Longrightarrow>
          board_of h a = b \<Longrightarrow> F \<le> fuel \<Longrightarrow> find_nums_h fuel h a r c (num + 1) n \<noteq> None"
        by blast
      have "find_nums_h fuel h a r c num n \<noteq> None"
        if "own_rows h a" "board_of h a = b" "Suc F \<le> fuel" for h a fuel
      proof -
        from that(3) obtain f where f: "fuel = Suc f" "F \<le> f" by (cases fuel) simp_all
        from F [OF that(1,2) f(2)] show ?thesis
          unfolding f(1) using guard False that(2) by simp
      qed
      then show ?thesis by blast
    next
      case True
      let ?b1 = "set_cell b r c num"
      from "2.IH"(1) [OF guard True] obtain F1 where F1: "\<And>h a fuel. own_rows h a \<Longrightarrow>
          board_of h a = ?b1 \<Longrightarrow> F1 \<le> fuel \<Longrightarrow> find_h fuel h a n \<noteq> None"
        by blast
      have e: "(fst (find_rec ?b1 n), snd (find_rec ?b1 n)) = find_rec ?b1 n" by simp
      from "2.IH"(2) [OF guard True e]
      obtain F2 where F2: "\<And>h a fuel. own_rows h a \<Longrightarrow>
          board_of h a = fst (find_rec ?b1 n) \<Longrightarrow> F2 \<le> fuel \<Longrightarrow>
          find_nums_h fuel h a r c (num + 1) (snd (find_rec ?b1 n)) \<noteq> None"
        by blast
      have "find_nums_h fuel h a r c num n \<noteq> None"
        if "own_rows h a" "board_of h a = b" "Suc (max F1 F2) \<le> fuel" for h a fuel
      proof -
        from that(3) obtain f where f: "fuel = Suc f" "F1 \<le> f" "F2 \<le> f"
          by (cases fuel) simp_all
        let ?hs = "h_set_cell h a r c num"
        have owns: "own_rows ?hs a" using that(1) by simp
        have bs: "board_of ?hs a = ?b1" using that(1,2) by (simp add: board_of_set_cell)
        from F1 [OF owns bs f(2)] obtain h1 m1 where
          r1: "find_h f ?hs a n = Some (h1, m1)" by auto
        from find_h_sim(1) [OF owns r1] have st: "heap_step ?hs h1 a"
          and sim: "find_rec ?b1 n = (board_of h1 a, m1)" by (simp_all add: bs)
        from F2 [OF heap_step_own [OF st] _ f(3)] sim
        have "find_nums_h f h1 a r c (num + 1) m1 \<noteq> None" by simp
        then show ?thesis
          unfolding f(1) using guard True that(2) r1 by simp
      qed
      then show ?thesis by blast
    qed
  qed
qed

lemma json_copy_props:
  assumes "json_copy h a = (h1, a')"
  shows "own_rows h1 a'" "board_of h1 a' = board_of h a" "take (length h) h1 = h"
    "\<forall>ra\<in>set (h_rows h1 a'). length h \<le> ra"
proof -
  let ?rows = "board_of h a"
  let ?n = "length h" and ?k = "length (board_of h a)"
  from assms have a': "a' = ?n + ?k"
    by (auto simp: json_copy_def Let_def)
  from assms have h1: "h1 = h @ map NumArray ?rows @ [RefArray [?n..<?n + ?k]]"
    by (auto simp: json_copy_def Let_def)
  have len: "length h1 = ?n + ?k + 1" by (simp add: h1)
  have outer: "h1 ! a' = RefArray [?n..<?n + ?k]"
    by (simp add: h1 a' nth_append)
  have rows: "h_rows h1 a' = [?n..<?n + ?k]"
    using outer len by (simp add: h_rows_def a')
  have inner: "h1 ! (?n + j) = NumArray (?rows ! j)" if "j < ?k" for j
    using that by (simp add: h1 nth_append)
  have row: "h_row h1 (?n + j) = ?rows ! j" if "j < ?k" for j
    using that inner [OF that] len by (simp add: h_row_def)
  show "own_rows h1 a'"
    unfolding own_rows_def rows list_all_iff
  proof (intro conjI ballI)
    show "a' < length h1" by (simp add: len a')
    show "distinct [?n..<?n + ?k]" by simp
    show "a' \<notin> set [?n..<?n + ?k]" by (simp add: a')
  next
    fix ra assume "ra \<in> set [?n..<?n + ?k]"
    then obtain j where j: "ra = ?n + j" "j < ?k"
      by (metis add_diff_inverse_nat atLeastLessThan_iff nat_add_left_cancel_less not_le set_upt)
    with len show "ra < length h1" by simp
    from j inner [OF j(2)] row [OF j(2)] show "h1 ! ra = NumArray (h_row h1 ra)" by simp
  qed
  show "board_of h1 a' = board_of h a"
  proof (rule nth_equalityI)
    show "length (board_of h1 a') = length (board_of h a)" by (simp add: board_of_def rows)
  next
    fix j assume "j < length (board_of h1 a')"
    then have j: "j < ?k" by (simp add: board_of_def rows)
    then show "board_of h1 a' ! j = board_of h a ! j"
      using row [OF j] by (simp add: board_of_def [of h1] rows)
  qed
  show "take (length h) h1 = h" by (simp add: h1)
  show "\<forall>ra\<in>set (h_rows h1 a'). length h \<le> ra" by (simp add: rows)
qed

lemma take_length_le:
  assumes "take (length h) h' = h"
  shows "length h \<le> length h'"
proof -
  have "length (take (length h) h') = min (length h') (length h)" by simp
  with assms have "min (length h') (length h) = length h" by simp
  then show ?thesis by (simp add: min_def split: if_splits)
qed

lemma board_of_take:
  assumes "board_at h a" "take (length h) h' = h"
  shows "board_of h' a = board_of h a"
proof -
  from assms(2) have le: "length h \<le> length h'" by (rule take_length_le)
  have eq: "h' ! x = h ! x" if "x < length h" for x
    using that assms(2) by (metis nth_take)
  from assms(1) have a: "a < length h" by (simp add: board_at_def)
  with le eq [OF a] have rows: "h_rows h' a = h_rows h a" by (simp add: h_rows_def)
  have "h_row h' ra = h_row h ra" if "ra \<in> set (h_rows h a)" for ra
  proof -
    from assms(1) that have "ra < length h" by (auto simp: board_at_def list_all_iff)
    with le eq [OF this] show ?thesis by (simp add: h_row_def)
  qed
  then show ?thesis by (simp add: board_of_def rows)
qed

lemma hasUniqueSolution_h_frame:
  assumes "hasUniqueSolution_h fuel h board = Some (h', res)"
  shows "take (length h) h' = h"
proof -
  obtain h1 a' where jc: "json_copy h board = (h1, a')" by (cases "json_copy h board")
  note cp = json_copy_props [OF jc]
  from assms jc obtain cnt where f: "find_h fuel h1 a' 0 = Some (h', cnt)"
    by (auto simp: hasUniqueSolution_h_def split: option.splits)
  from find_h_sim(1) [OF cp(1) f] have st: "heap_step h1 h' a'" by simp
  then have len: "length h' = length h1"
    and same: "\<And>x. x \<notin> set (h_rows h1 a') \<Longrightarrow> h' ! x = h1 ! x"
    by (simp_all add: heap_step_def)
  from cp(3) have le1: "length h \<le> length h1" by (rule take_length_le)
  show ?thesis
  proof (rule nth_equalityI)
    show "length (take (length h) h') = length h" using len le1 by simp
  next
    fix x assume "x < length (take (length h) h')"
    then have x: "x < length h" by simp
    with cp(4) have "x \<notin> set (h_rows h1 a')" by auto
    from same [OF this] have "h' ! x = h1 ! x" .
    also from x cp(3) have "h1 ! x = h ! x" by (metis nth_take)
    finally show "take (length h) h' ! x = h ! x" using x by simp
  qed
qed

lemma hasUniqueSolution_h_result:
  "\<exists>F. \<forall>fuel\<ge>F. \<exists>h'. hasUniqueSolution_h fuel h board =
     Some (h', hasUniqueSolution (board_of h board))"
proof -
  obtain h1 a' where jc: "json_copy h board = (h1, a')" by (cases "json_copy h board")
  note cp = json_copy_props [OF jc]
  from find_h_total(1) [of "board_of h1 a'" 0] obtain F where
    F: "\<And>fuel. F \<le> fuel \<Longrightarrow> find_h fuel h1 a' 0 \<noteq> None"
    using cp(1) by blast
  have "\<exists>h'. hasUniqueSolution_h fuel h board = Some (h', hasUniqueSolution (board_of h board))"
    if "F \<le> fuel" for fuel
  proof -
    from F [OF that] obtain h2 cnt where f: "find_h fuel h1 a' 0 = Some (h2, cnt)" by auto
    from find_h_sim(1) [OF cp(1) f] have "find_rec (board_of h board) 0 = (board_of h2 a', cnt)"
      by (simp add: cp(2))
    then have "hasUniqueSolution (board_of h board) \<longleftrightarrow> cnt = 1"
      by (simp add: hasUniqueSolution_def)
    with jc f show ?thesis by (simp add: hasUniqueSolution_h_def)
  qed
  then show ?thesis by blast
qed

section \<open>The claims\<close>

subsection \<open>C1\<close>

text \<open>
  C1. For every difficulty and every random tape, the puzzle \<open>generatePuzzle\<close> returns has
  exactly one valid complete Sudoku completion, which is the solution returned with it;
  \<open>hasUniqueSolution\<close> returns true on the puzzle, and the bounded solution count (cutoff
  2) of \<open>find\<close> on it is 1.
\<close>

theorem generated_puzzle_unique:
  "(\<exists>!s. completion (fst (generatePuzzle diff rng)) s) \<and>
   completion (fst (generatePuzzle diff rng)) (snd (generatePuzzle diff rng)) \<and>
   hasUniqueSolution (fst (generatePuzzle diff rng)) \<and>
   snd (find_rec (fst (generatePuzzle diff rng)) 0) = 1"
proof -
  let ?p = "fst (generatePuzzle diff rng)"
  note f = puzzle_facts [of diff rng]
  have c: "consistent ?p" by (rule completion_consistent [OF f(4) f(2) f(1)])
  from f(3) have "card (completions ?p) = 1" by (simp add: hasUniqueSolution_iff [OF f(1) c])
  then have "\<exists>!s. s \<in> completions ?p" by (rule card_one_ex1)
  then have "\<exists>!s. completion ?p s" by (simp add: completions_def)
  moreover from f(3) have "snd (find_rec ?p 0) = 1"
    by (simp add: hasUniqueSolution_def case_prod_unfold)
  ultimately show ?thesis using f(2-4) by (simp add: completion_def)
qed

subsection \<open>C2\<close>

text \<open>
  C2. Every non-empty cell of the generated puzzle equals the corresponding cell of the
  returned solution.
\<close>

theorem puzzle_sub_assignment:
  "\<forall>r<9. \<forall>c<9. fst (generatePuzzle diff rng) ! r ! c \<noteq> 0 \<longrightarrow>
     fst (generatePuzzle diff rng) ! r ! c = snd (generatePuzzle diff rng) ! r ! c"
proof (intro allI impI)
  fix r c :: nat
  assume "r < 9" "c < 9" and nz: "fst (generatePuzzle diff rng) ! r ! c \<noteq> 0"
  then have "(r, c) \<in> set cells9" by (simp add: set_cells9)
  with puzzle_facts(2) [of diff rng]
  have "cell_at (fst (generatePuzzle diff rng)) (r, c) = 0 \<or>
      cell_at (fst (generatePuzzle diff rng)) (r, c) = cell_at (snd (generatePuzzle diff rng)) (r, c)"
    unfolding sub_assignment_iff by blast
  with nz show "fst (generatePuzzle diff rng) ! r ! c = snd (generatePuzzle diff rng) ! r ! c"
    by (simp add: cell_at_def)
qed

theorem puzzle_sub_assignment_witness:
  "\<exists>r<9. \<exists>c<9. fst (generatePuzzle ''easy'' (\<lambda>k. 0)) ! r ! c \<noteq> 0 \<and>
     fst (generatePuzzle ''easy'' (\<lambda>k. 0)) ! r ! c = snd (generatePuzzle ''easy'' (\<lambda>k. 0)) ! r ! c"
proof -
  let ?p = "fst (generatePuzzle ''easy'' (\<lambda>k. 0))"
  have "initial_cellsToRemove ''easy'' = Number 38"
    by (simp add: initial_cellsToRemove_def lookup_difficulty_def difficultyMap_def truthy_def)
  from generated_within_target [OF this, of "\<lambda>k. 0"] have "count_empty ?p < 81" by simp
  from nonempty_cell_exists [OF puzzle_facts(1) this]
  obtain r c where rc: "r < 9" "c < 9" "?p ! r ! c \<noteq> 0" by blast
  with puzzle_sub_assignment [of "''easy''" "\<lambda>k. 0"] show ?thesis by blast
qed

subsection \<open>C3\<close>

text \<open>
  C3. Every run of \<open>solve\<close> on the empty 9x9 grid that returns success leaves a complete
  and valid grid: every row, column and 3x3 box contains each digit 1--9 exactly once.
  Every run on the empty grid does return success, and the solution grid returned by
  \<open>generatePuzzle\<close> holds only the integers 1--9.
\<close>

theorem solve_empty_valid:
  "(solve emptyBoard rng = (True, g, rng') \<longrightarrow> sudoku g) \<and>
   fst (solve emptyBoard rng) \<and>
   list_all (list_all (\<lambda>v. 1 \<le> v \<and> v \<le> 9)) (snd (generatePuzzle diff rng))"
proof (intro conjI)
  show "solve emptyBoard rng = (True, g, rng') \<longrightarrow> sudoku g"
    using solve_empty(2) [of rng] by auto
  show "fst (solve emptyBoard rng)" by (rule solve_empty(1))
  show "list_all (list_all (\<lambda>v. 1 \<le> v \<and> v \<le> 9)) (snd (generatePuzzle diff rng))"
    by (rule sudoku_digits [OF puzzle_facts(4)])
qed

theorem solve_empty_valid_witness:
  "solve emptyBoard (\<lambda>k. 0) =
     (True, fst (snd (solve emptyBoard (\<lambda>k. 0))), snd (snd (solve emptyBoard (\<lambda>k. 0)))) \<and>
   sudoku (fst (snd (solve emptyBoard (\<lambda>k. 0)))) \<and>
   list_all (list_all (\<lambda>v. 1 \<le> v \<and> v \<le> 9)) (snd (generatePuzzle ''easy'' (\<lambda>k. 0)))"
proof -
  have "solve emptyBoard (\<lambda>k. 0) =
     (True, fst (snd (solve emptyBoard (\<lambda>k. 0))), snd (snd (solve emptyBoard (\<lambda>k. 0))))"
    using solve_empty(1) [of "\<lambda>k. 0"] by (metis prod.collapse)
  with solve_empty_valid [of "\<lambda>k. 0" "fst (snd (solve emptyBoard (\<lambda>k. 0)))"
      "snd (snd (solve emptyBoard (\<lambda>k. 0)))" "''easy''"]
  show ?thesis by simp
qed

subsection \<open>C4\<close>

text \<open>
  C4. For every 9x9 grid, row and column in 0..8 and digit 1--9, where the digit is being
  tested at the cell (row, col) and is not yet placed there (the cell does not hold it:
  it is empty, as at every call from \<open>solve\<close>, or holds another digit, as at the calls
  from \<open>find\<close>), \<open>isValid\<close> returns true iff the digit appears nowhere else in row
  \<open>row\<close>, column \<open>col\<close> or the 3x3 box containing (row, col).
\<close>

theorem isValid_placement:
  assumes "board9 board" "row < 9" "col < 9" "1 \<le> num" "num \<le> 9"
    and "board ! row ! col \<noteq> num"
  shows "isValid board row col num \<longleftrightarrow> \<not> appears_elsewhere board row col num"
  using assms(6) by (simp add: isValid_tested_cell [OF assms(1-3)])

text \<open>
  On \<open>failing_board\<close>: at the empty cell (0, 0) the digit 2 appears nowhere else and is
  accepted, and the digit 1 appears in column 0 and is refused; at cell (3, 0), which holds
  1, the digit 2 appears nowhere else and is accepted.
\<close>

theorem isValid_placement_witness:
  "board9 failing_board \<and>
   failing_board ! 0 ! 0 = 0 \<and>
   isValid failing_board 0 0 2 \<and> \<not> appears_elsewhere failing_board 0 0 2 \<and>
   \<not> isValid failing_board 0 0 1 \<and> appears_elsewhere failing_board 0 0 1 \<and>
   failing_board ! 3 ! 0 = 1 \<and>
   isValid failing_board 3 0 2 \<and> \<not> appears_elsewhere failing_board 3 0 2"
proof -
  have b: "board9 failing_board" by code_simp
  have e: "failing_board ! 0 ! 0 = 0" by code_simp
  have f: "failing_board ! 3 ! 0 = 1" by code_simp
  have v2: "isValid failing_board 0 0 2" by code_simp
  have v1: "\<not> isValid failing_board 0 0 1" by code_simp
  have v3: "isValid failing_board 3 0 2" by code_simp
  have "isValid failing_board 0 0 2 \<longleftrightarrow> \<not> appears_elsewhere failing_board 0 0 2"
    using e by (intro isValid_placement [OF b]) simp_all
  with v2 have a2: "\<not> appears_elsewhere failing_board 0 0 2" by simp
  have "isValid failing_board 0 0 1 \<longleftrightarrow> \<not> appears_elsewhere failing_board 0 0 1"
    using e by (intro isValid_placement [OF b]) simp_all
  with v1 have a1: "appears_elsewhere failing_board 0 0 1" by simp
  have "isValid failing_board 3 0 2 \<longleftrightarrow> \<not> appears_elsewhere failing_board 3 0 2"
    using f by (intro isValid_placement [OF b]) simp_all
  with v3 have a3: "\<not> appears_elsewhere failing_board 3 0 2" by simp
  from b e f v2 v1 v3 a2 a1 a3 show ?thesis by simp
qed

subsection \<open>C5\<close>

text \<open>
  C5. For each of the five difficulties of the table, the number of empty cells of the
  generated puzzle is at most the table's target.
\<close>

theorem removed_cells_at_most_target:
  "count_empty (fst (generatePuzzle ''easy'' rng)) \<le> 38 \<and>
   count_empty (fst (generatePuzzle ''medium'' rng)) \<le> 46 \<and>
   count_empty (fst (generatePuzzle ''hard'' rng)) \<le> 53 \<and>
   count_empty (fst (generatePuzzle ''expert'' rng)) \<le> 59 \<and>
   count_empty (fst (generatePuzzle ''master'' rng)) \<le> 64"
proof -
  have "initial_cellsToRemove ''easy'' = Number 38" "initial_cellsToRemove ''medium'' = Number 46"
    "initial_cellsToRemove ''hard'' = Number 53" "initial_cellsToRemove ''expert'' = Number 59"
    "initial_cellsToRemove ''master'' = Number 64"
    by (simp_all add: initial_cellsToRemove_def lookup_difficulty_def difficultyMap_def truthy_def)
  then show ?thesis by (intro conjI generated_within_target)
qed

subsection \<open>C6\<close>

text \<open>
  C6. On every 9x9 board on which \<open>solve\<close> returns failure, the board at return is the
  board at entry.
\<close>

theorem solve_failure_restores:
  assumes "board9 board" "solve board rng = (False, board', rng')"
  shows "board' = board"
  using solve_correct(1) [OF assms(1), of rng] assms(2) by simp

theorem solve_failure_restores_witness:
  "board9 failing_board \<and> isValid failing_board 0 0 2 \<and>
   fst (solve failing_board (\<lambda>k. 0)) = False \<and>
   fst (snd (solve failing_board (\<lambda>k. 0))) = failing_board"
proof -
  have b: "board9 failing_board" by code_simp
  have v: "isValid failing_board 0 0 2" by code_simp
  have f: "fst (solve failing_board (\<lambda>k. 0)) = False" by code_simp
  then have "solve failing_board (\<lambda>k. 0) =
      (False, fst (snd (solve failing_board (\<lambda>k. 0))), snd (snd (solve failing_board (\<lambda>k. 0))))"
    by (metis prod.collapse)
  from solve_failure_restores [OF b this] b v f show ?thesis by simp
qed

subsection \<open>C7\<close>

text \<open>
  C7. With the arrays as objects of a heap: for every heap and every board in it, the call
  \<open>hasUniqueSolution(board)\<close> returns (with enough fuel for the recursion of \<open>find\<close>), its
  result is that of the search on the board's value, and every object that existed before
  the call is unchanged after it, so the caller's board reads the same. The search writes
  only into the rows of the copy, which are new objects.
\<close>

theorem hasUniqueSolution_keeps_board:
  assumes "board_at h board"
  shows "(\<exists>F. \<forall>fuel\<ge>F. \<exists>h'. hasUniqueSolution_h fuel h board =
            Some (h', hasUniqueSolution (board_of h board))) \<and>
         (\<forall>fuel h' res. hasUniqueSolution_h fuel h board = Some (h', res) \<longrightarrow>
            take (length h) h' = h \<and> board_of h' board = board_of h board)"
proof (intro conjI allI impI)
  show "\<exists>F. \<forall>fuel\<ge>F. \<exists>h'. hasUniqueSolution_h fuel h board =
      Some (h', hasUniqueSolution (board_of h board))"
    by (rule hasUniqueSolution_h_result)
next
  fix fuel h' res assume a: "hasUniqueSolution_h fuel h board = Some (h', res)"
  then show t: "take (length h) h' = h" by (rule hasUniqueSolution_h_frame)
  from assms t show "board_of h' board = board_of h board" by (rule board_of_take)
qed

theorem hasUniqueSolution_keeps_board_witness:
  "board_at example_heap 9 \<and>
   board_of example_heap 9 = set_cell example_solution 0 0 0 \<and>
   (\<exists>h'. hasUniqueSolution_h 20 example_heap 9 = Some (h', True) \<and>
      take (length example_heap) h' = example_heap \<and>
      board_of h' 9 = set_cell example_solution 0 0 0)"
proof -
  have b: "board_at example_heap 9" by code_simp
  have v: "board_of example_heap 9 = set_cell example_solution 0 0 0" by code_simp
  have "map_option snd (hasUniqueSolution_h 20 example_heap 9) = Some True" by code_simp
  then obtain h' where r: "hasUniqueSolution_h 20 example_heap 9 = Some (h', True)" by auto
  from hasUniqueSolution_keeps_board [OF b] r
  have "take (length example_heap) h' = example_heap \<and>
      board_of h' 9 = board_of example_heap 9" by blast
  with b v r show ?thesis by simp
qed

subsection \<open>C8\<close>

text \<open>
  C8. For every difficulty and tape, the removal loop of \<open>generatePuzzle\<close> stops after at
  most 81 iterations, each of which makes one call of \<open>hasUniqueSolution\<close>: the loop
  starts with the 81 distinct coordinates, and every iteration pops one of them, whether
  the removal is kept or undone.
\<close>

theorem removal_loop_bounded:
  "loop_iterations (fst (loop_entry diff rng)) \<le> 81 \<and>
   removal_loop (fst (loop_entry diff rng)) =
     (loop_body ^^ loop_iterations (fst (loop_entry diff rng))) (fst (loop_entry diff rng)) \<and>
   \<not> loop_cond (removal_loop (fst (loop_entry diff rng))) \<and>
   length (cells (fst (loop_entry diff rng))) = 81 \<and>
   distinct (cells (fst (loop_entry diff rng))) \<and>
   (\<forall>st. cells (loop_body st) = butlast (cells st))"
proof -
  let ?st = "fst (loop_entry diff rng)"
  have len: "length (cells ?st) = 81"
    using mset_eq_length [OF entry_cells [of diff rng]] by (simp add: length_cells9)
  have "distinct (cells ?st)"
    using mset_eq_imp_distinct_iff [OF entry_cells [of diff rng]] distinct_cells9 by simp
  moreover have "loop_iterations ?st \<le> 81"
    using loop_iterations_le [of ?st] len by simp
  ultimately show ?thesis
    using len removal_loop_funpow [of ?st] removal_loop_exit [of ?st] by simp
qed

subsection \<open>C9\<close>

text \<open>
  C9. The claim is that every difficulty string outside the table falls back to the target
  46. The code does so for every string that is not a member name of \<open>Object.prototype\<close>
  (lemma \<open>unknown_difficulty_fallback\<close>). For \<open>constructor\<close> the lookup finds the inherited
  function, the loop condition is false at once, and the puzzle returned is the complete
  solution, while generation with target 46 always clears at least one cell.
\<close>

theorem inherited_key_removes_nothing:
  "initial_cellsToRemove ''constructor'' = Inherited \<and>
   fst (generatePuzzle ''constructor'' rng) = snd (generatePuzzle ''constructor'' rng) \<and>
   count_empty (fst (generatePuzzle ''constructor'' rng)) = 0 \<and>
   0 < count_empty (fst (generatePuzzle ''medium'' rng)) \<and>
   generatePuzzle ''constructor'' rng \<noteq> generatePuzzle ''medium'' rng"
proof -
  have i: "initial_cellsToRemove ''constructor'' = Inherited"
    by (simp add: initial_cellsToRemove_def lookup_difficulty_def difficultyMap_def truthy_def
        object_prototype_members_def)
  have m: "initial_cellsToRemove ''medium'' = Number 46"
    by (simp add: initial_cellsToRemove_def lookup_difficulty_def difficultyMap_def truthy_def)
  note e = inherited_no_removal [OF i, of rng]
  have z: "count_empty (fst (generatePuzzle ''constructor'' rng)) = 0"
    unfolding e by (rule count_empty_sudoku [OF puzzle_facts(4)])
  have p: "0 < count_empty (fst (generatePuzzle ''medium'' rng))"
    by (rule positive_target_removes [OF m]) simp
  from z p have "generatePuzzle ''constructor'' rng \<noteq> generatePuzzle ''medium'' rng" by auto
  with i e z p show ?thesis by simp
qed

subsection \<open>C10\<close>

text \<open>
  C10. For every input array and every random tape, the array \<open>shuffle\<close> returns is a
  permutation of the input: it has the same multiset of elements and the same length.
  (The model passes the array by value: the returned list is the mutated array.)
\<close>

theorem shuffle_permutation:
  "mset (fst (shuffle array rng)) = mset array \<and>
   length (fst (shuffle array rng)) = length array"
proof -
  have m: "mset (fst (shuffle array rng)) = mset array"
    by (rule shuffle_mset)
  from m have "length (fst (shuffle array rng)) = length array"
    by (rule mset_eq_length)
  with m show ?thesis by simp
qed

end
